theory Spec2Isabelle
  imports Main
begin

section \<open>Data model of prepare_isoform_data.py\<close>

text \<open>
  Python exceptions are values. \<open>AssertionError\<close> carries the message of the
  failed \<^verbatim>\<open>assert\<close> (empty when the statement gives none), \<open>IndexError\<close> is a read
  of \<^verbatim>\<open>regions[0]\<close> on an empty sequence, \<open>ValueError\<close> is a failed \<^verbatim>\<open>int(...)\<close> or
  a tuple unpacking of the wrong length.
\<close>

datatype error = AssertionError string | IndexError | ValueError

text \<open>
  A region is the 4-tuple \<^verbatim>\<open>(chrom, start, end, strand)\<close> that
  \<^verbatim>\<open>output_isoform_as_bed\<close> builds; coordinates are Python integers.
  \<open>item0\<close> .. \<open>item3\<close> are the reads \<^verbatim>\<open>region[0]\<close> .. \<^verbatim>\<open>region[3]\<close>
  (\<^verbatim>\<open>itemgetter(0)\<close>, \<^verbatim>\<open>itemgetter(3)\<close>).
\<close>

type_synonym region = "string \<times> int \<times> int \<times> string"

fun item0 :: "region \<Rightarrow> string" where
  "item0 (c, s, e, d) = c"

fun item1 :: "region \<Rightarrow> int" where
  "item1 (c, s, e, d) = s"

fun item2 :: "region \<Rightarrow> int" where
  "item2 (c, s, e, d) = e"

fun item3 :: "region \<Rightarrow> string" where
  "item3 (c, s, e, d) = d"

text \<open>The namedtuple \<^verbatim>\<open>Bed._region = ('start', 'end')\<close>.\<close>

datatype Region = Region (r_start: int) (r_end: int)

text \<open>
  The attributes of a \<^verbatim>\<open>Bed\<close> object once \<^verbatim>\<open>__init__\<close> has returned.
  \<open>bed_end\<close> is the attribute \<^verbatim>\<open>end\<close>, \<open>union_opt\<close> the attribute \<^verbatim>\<open>union\<close>.
\<close>

record Bed =
  regions :: "region list"
  name :: string
  union_opt :: bool
  chrom :: string
  start :: int
  bed_end :: int
  strand :: string
  block_count :: int
  block_sizes :: "int list"
  block_starts :: "int list"

text \<open>The namedtuple \<^verbatim>\<open>Isoform = ('chr_', 'starts', 'ends', 'strand')\<close>.\<close>

record Isoform =
  iso_chr :: string
  starts :: "int list"
  ends :: "int list"
  iso_strand :: string

section \<open>The class Bed\<close>

text \<open>
  \<^verbatim>\<open>reverse_regions_if_minus_strand\<close>: reads \<^verbatim>\<open>regions[0][3]\<close> (an IndexError on an
  empty list) and reverses the list when that strand is \<^verbatim>\<open>'-'\<close>.
\<close>

definition reverse_regions_if_minus_strand :: "region list \<Rightarrow> error + region list" where
  "reverse_regions_if_minus_strand rs =
     (case rs of
        [] \<Rightarrow> Inl IndexError
      | r0 # _ \<Rightarrow> Inr (if item3 r0 = ''-'' then rev rs else rs))"

text \<open>
  \<^verbatim>\<open>_parse_region\<close>, the seed step. The object already holds \<^verbatim>\<open>regions\<close>, \<^verbatim>\<open>name\<close>
  and \<^verbatim>\<open>union\<close>, given here as \<open>rs\<close>, \<open>nm\<close>, \<open>un\<close>. The coordinates are integers
  already, so \<^verbatim>\<open>int(region[1])\<close> is the identity.
\<close>

definition parse_region :: "region list \<Rightarrow> string \<Rightarrow> bool \<Rightarrow> region \<Rightarrow> Bed" where
  "parse_region rs nm un region =
     (let st = item1 region - 1; en = item2 region in
      \<lparr> regions = rs, name = nm, union_opt = un,
        chrom = item0 region, start = st, bed_end = en, strand = item3 region,
        block_count = 1, block_sizes = [en - st], block_starts = [0] \<rparr>)"

text \<open>
  \<^verbatim>\<open>Bed([region])\<close> as \<^verbatim>\<open>_add_block\<close> calls it: default name \<^verbatim>\<open>'.'\<close>, \<^verbatim>\<open>union=False\<close>.
  On a one-element list the reversal changes nothing and the loop of
  \<^verbatim>\<open>_parse_regions\<close> has no iteration, so the constructor is the seed step alone
  (lemma \<open>Bed_init_single\<close> below proves that the constructor agrees).
\<close>

definition Bed_single :: "region \<Rightarrow> Bed" where
  "Bed_single region = parse_region [region] ''.'' False region"

text \<open>\<^verbatim>\<open>_add_block\<close>, the fold step; the assertion on the strands is its only failure.\<close>

definition add_block :: "Bed \<Rightarrow> region \<Rightarrow> error + Bed" where
  "add_block self region =
     (let other = Bed_single region in
      if strand self \<noteq> strand other then Inl (AssertionError [])
      else
        let count = block_count self + block_count other;
            sizes = block_sizes self @ block_sizes other;
            all_starts = map (\<lambda>s. s + start self) (block_starts self) @ [start other];
            start' = (if start other < start self then start other else start self);
            end' = (if bed_end other > bed_end self then bed_end other else bed_end self)
        in Inr (self \<lparr> block_count := count, block_sizes := sizes,
                       start := start',
                       block_starts := map (\<lambda>s. s - start') all_starts,
                       bed_end := end' \<rparr>))"

text \<open>The loop \<^verbatim>\<open>for region in regions[1:]: self._add_block(region)\<close>.\<close>

fun add_blocks :: "Bed \<Rightarrow> region list \<Rightarrow> error + Bed" where
  "add_blocks self [] = Inr self"
| "add_blocks self (region # rest) =
     (case add_block self region of
        Inl e \<Rightarrow> Inl e
      | Inr self' \<Rightarrow> add_blocks self' rest)"

text \<open>\<^verbatim>\<open>_parse_regions\<close>; \<^verbatim>\<open>self.regions\<close> is the list it is called on.\<close>

definition parse_regions :: "region list \<Rightarrow> string \<Rightarrow> bool \<Rightarrow> error + Bed" where
  "parse_regions rs nm un =
     (case rs of
        [] \<Rightarrow> Inl IndexError
      | r0 # rest \<Rightarrow> add_blocks (parse_region rs nm un r0) rest)"

text \<open>
  The sweep of \<^verbatim>\<open>get_union_regions\<close>: \<open>r1\<close> is the running candidate, the list is
  what is left of \<^verbatim>\<open>regions[1:]\<close>, \<open>union_regions\<close> the intervals emitted so far. The
  \<^verbatim>\<open>else\<close> of the \<^verbatim>\<open>for\<close> runs when the loop ends (there is no \<^verbatim>\<open>break\<close>).
\<close>

fun union_loop :: "Region \<Rightarrow> Region list \<Rightarrow> Region list \<Rightarrow> Region list" where
  "union_loop r1 [] union_regions = union_regions @ [r1]"
| "union_loop r1 (r2 # rest) union_regions =
     (if r_end r1 < r_start r2 then union_loop r2 rest (union_regions @ [r1])
      else if r_end r1 < r_end r2 then union_loop (Region (r_start r1) (r_end r2)) rest union_regions
      else union_loop r1 rest union_regions)"

text \<open>
  The two conversions inside \<^verbatim>\<open>get_union_regions\<close>: the lambda
  \<^verbatim>\<open>cls._region(r[1], r[2])\<close>, and the generator that tags a merged interval
  with the shared chromosome and strand.
\<close>

definition as_Region :: "region \<Rightarrow> Region" where
  "as_Region r = Region (item1 r) (item2 r)"

definition retag :: "string \<Rightarrow> string \<Rightarrow> Region \<Rightarrow> region" where
  "retag chr strd u = (chr, r_start u, r_end u, strd)"

text \<open>
  \<^verbatim>\<open>get_union_regions\<close>. \<^verbatim>\<open>len(set(...))\<close> is the number of distinct values;
  \<^verbatim>\<open>sorted(..., key=...)\<close> is stable, as \<open>sort_key\<close> is. The result is a tuple of
  4-tuples, here a list. Both reads of index 0 keep their IndexError branch.
\<close>

definition get_union_regions :: "region list \<Rightarrow> error + region list" where
  "get_union_regions rs =
     (if card (set (map item0 rs)) \<noteq> 1
      then Inl (AssertionError ''Not all regions in the same chromosome!'')
      else if card (set (map item3 rs)) \<noteq> 1
      then Inl (AssertionError ''Not all regions at the same strand!'')
      else
        (case rs of
           [] \<Rightarrow> Inl IndexError
         | r0 # _ \<Rightarrow>
             (case sort_key r_start (map as_Region rs) of
                [] \<Rightarrow> Inl IndexError
              | r1 # rest \<Rightarrow>
                  Inr (map (retag (item0 r0) (item3 r0)) (union_loop r1 rest [])))))"

text \<open>\<^verbatim>\<open>Bed.__init__(regions, name, union)\<close>.\<close>

definition Bed_init :: "region list \<Rightarrow> string \<Rightarrow> bool \<Rightarrow> error + Bed" where
  "Bed_init rs nm un =
     (case (if \<not> un then reverse_regions_if_minus_strand rs else get_union_regions rs) of
        Inl e \<Rightarrow> Inl e
      | Inr rs' \<Rightarrow> parse_regions rs' nm un)"

section \<open>Isoform parsing and the main loop\<close>

text \<open>\<^verbatim>\<open>str.split(sep)\<close> for a one-character separator.\<close>

fun split :: "char \<Rightarrow> string \<Rightarrow> string list" where
  "split sep [] = [[]]"
| "split sep (c # cs) =
     (if c = sep then [] # split sep cs
      else (case split sep cs of
              [] \<Rightarrow> [[c]]
            | w # ws \<Rightarrow> (c # w) # ws))"

text \<open>
  \<^verbatim>\<open>int(s)\<close> on a string of ASCII characters, as CPython reads it: the whitespace
  it skips on both sides is tab, line feed, vertical tab, form feed, carriage return and
  space (the characters 0x1C to 0x1F are not skipped); one sign is allowed; then decimal
  digits, where a single underscore may stand between two digits. A number of more than
  \<open>int_max_str_digits\<close> digits (underscores not counted, leading zeros counted) is
  refused: 4300 is the default of \<^verbatim>\<open>sys.int_max_str_digits\<close>. Anything else is a
  ValueError too.
\<close>

definition is_space :: "char \<Rightarrow> bool" where
  "is_space c = (c \<in> set [CHR 0x09, CHR 0x0A, CHR 0x0B, CHR 0x0C, CHR 0x0D, CHR 0x20])"

definition int_max_str_digits :: nat where
  "int_max_str_digits = 4300"

definition digit_val :: "char \<Rightarrow> int option" where
  "digit_val c =
     (let n = (of_char c :: nat) in
      if 48 \<le> n \<and> n \<le> 57 then Some (int n - 48) else None)"

fun digits_acc :: "int \<Rightarrow> string \<Rightarrow> int option" where
  "digits_acc acc [] = Some acc"
| "digits_acc acc (c # cs) =
     (if c = CHR ''_'' then
        (case cs of
           [] \<Rightarrow> None
         | d # ds \<Rightarrow> (case digit_val d of
                        None \<Rightarrow> None
                      | Some v \<Rightarrow> digits_acc (acc * 10 + v) ds))
      else (case digit_val c of
              None \<Rightarrow> None
            | Some v \<Rightarrow> digits_acc (acc * 10 + v) cs))"

definition py_digits :: "string \<Rightarrow> int option" where
  "py_digits s =
     (case s of
        [] \<Rightarrow> None
      | c # cs \<Rightarrow> (case digit_val c of
                     None \<Rightarrow> None
                   | Some v \<Rightarrow> digits_acc v cs))"

definition strip :: "string \<Rightarrow> string" where
  "strip s = rev (dropWhile is_space (rev (dropWhile is_space s)))"

definition py_int :: "string \<Rightarrow> error + int" where
  "py_int s =
     (let t = strip s;
          (neg, body) = (case t of
                           c # cs \<Rightarrow> if c = CHR ''-'' then (True, cs)
                                     else if c = CHR ''+'' then (False, cs)
                                     else (False, t)
                         | [] \<Rightarrow> (False, t))
      in case py_digits body of
           None \<Rightarrow> Inl ValueError
         | Some n \<Rightarrow>
             if length (filter (\<lambda>c. c \<noteq> CHR ''_'') body) > int_max_str_digits
             then Inl ValueError
             else Inr (if neg then - n else n))"

text \<open>\<^verbatim>\<open>list(map(int, xs))\<close>: the first failing conversion raises.\<close>

fun map_int :: "string list \<Rightarrow> error + int list" where
  "map_int [] = Inr []"
| "map_int (x # xs) =
     (case py_int x of
        Inl e \<Rightarrow> Inl e
      | Inr n \<Rightarrow> (case map_int xs of
                    Inl e \<Rightarrow> Inl e
                  | Inr ns \<Rightarrow> Inr (n # ns)))"

text \<open>
  \<^verbatim>\<open>parse_isoform_data\<close>: the unpacking into four names raises ValueError unless the
  split has exactly four fields.
\<close>

definition parse_isoform_data :: "string \<Rightarrow> error + Isoform" where
  "parse_isoform_data isoform_string =
     (case split CHR ''|'' isoform_string of
        [chr, starts_s, ends_s, strand_s] \<Rightarrow>
          (case map_int (split CHR '','' starts_s) of
             Inl e \<Rightarrow> Inl e
           | Inr ss \<Rightarrow>
               (case map_int (split CHR '','' ends_s) of
                  Inl e \<Rightarrow> Inl e
                | Inr es \<Rightarrow>
                    Inr \<lparr> iso_chr = chr, starts = ss, ends = es, iso_strand = strand_s \<rparr>))
      | _ \<Rightarrow> Inl ValueError)"

text \<open>The region list that \<^verbatim>\<open>output_isoform_as_bed\<close> builds with \<^verbatim>\<open>zip\<close>.\<close>

definition isoform_regions :: "Isoform \<Rightarrow> region list" where
  "isoform_regions isoform =
     map (\<lambda>(s, e). (iso_chr isoform, s, e, iso_strand isoform))
         (zip (starts isoform) (ends isoform))"

text \<open>\<^verbatim>\<open>output_isoform_as_bed\<close>: two assertions, then \<^verbatim>\<open>Bed(regions, name, union=True)\<close>.\<close>

definition output_isoform_as_bed :: "Isoform \<Rightarrow> string \<Rightarrow> error + Bed" where
  "output_isoform_as_bed isoform isoform_name =
     (if length (starts isoform) \<noteq> length (ends isoform) then Inl (AssertionError [])
      else if \<not> list_all (\<lambda>(i, j). i \<le> j) (zip (starts isoform) (ends isoform))
      then Inl (AssertionError [])
      else Bed_init (isoform_regions isoform) isoform_name True)"

text \<open>\<^verbatim>\<open>isoform_string.rstrip('\n')\<close>.\<close>

definition rstrip_newline :: "string \<Rightarrow> string" where
  "rstrip_newline s = rev (dropWhile (\<lambda>c. c = CHR 0x0A) (rev s))"

text \<open>
  One iteration of the first loop of the main program: the object whose
  \<^verbatim>\<open>to_string(all_fields=True)\<close> is printed to \<^verbatim>\<open>isoforms.bed\<close>, and the row
  \<^verbatim>\<open>(isoform_string, total_len)\<close> printed to \<^verbatim>\<open>isoforms.length.tsv\<close>.
\<close>

definition process_line :: "string \<Rightarrow> error + (Bed \<times> string \<times> int)" where
  "process_line line =
     (let isoform_string = rstrip_newline line in
      case parse_isoform_data isoform_string of
        Inl e \<Rightarrow> Inl e
      | Inr isoform_data \<Rightarrow>
          (case output_isoform_as_bed isoform_data isoform_string of
             Inl e \<Rightarrow> Inl e
           | Inr isoform_bed \<Rightarrow>
               Inr (isoform_bed, isoform_string, sum_list (block_sizes isoform_bed))))"

text \<open>The body written to \<^verbatim>\<open>isoforms.ext.fa\<close>: \<^verbatim>\<open>fa_seq + fa_seq[:30]\<close>.\<close>

definition extended_seq :: "string \<Rightarrow> string" where
  "extended_seq fa_seq = fa_seq @ take 30 fa_seq"

section \<open>Notions used to state the properties\<close>

text \<open>
  The genomic positions of a region, 0-based: the block that \<^verbatim>\<open>_parse_region\<close>
  makes of it runs from \<^verbatim>\<open>region[1] - 1\<close> up to, not including, \<^verbatim>\<open>region[2]\<close>.
  \<open>cov\<close> is the same for a \<open>Region\<close>, \<open>rsize\<close> the size of that block.
\<close>

definition covered :: "region \<Rightarrow> int set" where
  "covered r = {item1 r - 1 ..< item2 r}"

definition cov :: "Region \<Rightarrow> int set" where
  "cov u = {r_start u - 1 ..< r_end u}"

definition rsize :: "Region \<Rightarrow> int" where
  "rsize u = r_end u - (r_start u - 1)"

text \<open>No two regions of the list (at different places) share a position.\<close>

definition no_overlap :: "region list \<Rightarrow> bool" where
  "no_overlap rs = sorted_wrt (\<lambda>a b. covered a \<inter> covered b = {}) rs"

text \<open>
  What a \<open>Bed\<close> holds after the regions \<open>ps\<close> have been folded in, in that order:
  the invariant of the loop of \<^verbatim>\<open>_parse_regions\<close>.
\<close>

definition built_from :: "Bed \<Rightarrow> region list \<Rightarrow> bool" where
  "built_from b ps \<longleftrightarrow>
     ps \<noteq> [] \<and>
     block_count b = int (length ps) \<and>
     block_sizes b = map (\<lambda>r. item2 r - (item1 r - 1)) ps \<and>
     block_starts b = map (\<lambda>r. item1 r - 1 - start b) ps \<and>
     start b = Min ((\<lambda>r. item1 r - 1) ` set ps) \<and>
     bed_end b = Max (item2 ` set ps) \<and>
     chrom b = item0 (hd ps) \<and>
     (\<forall>r \<in> set ps. item3 r = strand b)"

section \<open>The fold of blocks\<close>

lemma Bed_init_single: "Bed_init [r] ''.'' False = Inr (Bed_single r)"
  by (simp add: Bed_init_def reverse_regions_if_minus_strand_def parse_regions_def Bed_single_def)

lemma add_block_Inl: "item3 r \<noteq> strand b \<Longrightarrow> add_block b r = Inl (AssertionError [])"
  by (auto simp: add_block_def Bed_single_def parse_region_def Let_def)

lemma add_block_Inr:
  "item3 r = strand b \<Longrightarrow>
   add_block b r = Inr (b \<lparr> block_count := block_count b + 1,
       block_sizes := block_sizes b @ [item2 r - (item1 r - 1)],
       start := min (start b) (item1 r - 1),
       block_starts := map (\<lambda>s. s + start b - min (start b) (item1 r - 1)) (block_starts b)
                       @ [item1 r - 1 - min (start b) (item1 r - 1)],
       bed_end := max (bed_end b) (item2 r) \<rparr>)"
  by (auto simp: add_block_def Bed_single_def parse_region_def Let_def min_def max_def)

lemma add_block_error: "add_block b r = Inl e \<Longrightarrow> e = AssertionError []"
  by (cases "item3 r = strand b") (simp_all add: add_block_Inr add_block_Inl)

lemma add_block_built:
  assumes "built_from b ps" "add_block b r = Inr b'"
  shows "built_from b' (ps @ [r])"
proof -
  have s: "item3 r = strand b"
    using assms(2) by (cases "item3 r = strand b") (simp_all add: add_block_Inl)
  from assms(1) have ne: "ps \<noteq> []" by (simp add: built_from_def)
  have fin: "finite ((\<lambda>r. item1 r - 1) ` set ps)" "(\<lambda>r. item1 r - 1) ` set ps \<noteq> {}"
       "finite (item2 ` set ps)" "item2 ` set ps \<noteq> {}"
    using ne by simp_all
  have b': "b' = b \<lparr> block_count := block_count b + 1,
       block_sizes := block_sizes b @ [item2 r - (item1 r - 1)],
       start := min (start b) (item1 r - 1),
       block_starts := map (\<lambda>s. s + start b - min (start b) (item1 r - 1)) (block_starts b)
                       @ [item1 r - 1 - min (start b) (item1 r - 1)],
       bed_end := max (bed_end b) (item2 r) \<rparr>"
    using assms(2) add_block_Inr [OF s] by simp
  have m1: "Min ((\<lambda>r. item1 r - 1) ` set (ps @ [r])) = min (start b) (item1 r - 1)"
    using assms(1) fin by (simp add: built_from_def min.commute)
  have m2: "Max (item2 ` set (ps @ [r])) = max (bed_end b) (item2 r)"
    using assms(1) fin by (simp add: built_from_def max.commute)
  show ?thesis
    unfolding built_from_def m1 m2 using assms(1) s ne
    by (simp add: b' built_from_def)
qed

lemma add_blocks_built:
  "built_from b ps \<Longrightarrow> add_blocks b qs = Inr b' \<Longrightarrow> built_from b' (ps @ qs)"
proof (induction qs arbitrary: b ps)
  case Nil
  then show ?case by simp
next
  case (Cons q qs)
  from Cons.prems(2) obtain b1 where b1: "add_block b q = Inr b1" "add_blocks b1 qs = Inr b'"
    by (auto split: sum.splits)
  have "built_from b1 (ps @ [q])" using add_block_built [OF Cons.prems(1) b1(1)] .
  from Cons.IH [OF this b1(2)] show ?case by simp
qed

lemma add_blocks_error: "add_blocks b qs = Inl e \<Longrightarrow> e = AssertionError []"
  by (induction qs arbitrary: b) (auto split: sum.splits dest: add_block_error)

lemma add_blocks_total:
  "\<forall>r \<in> set qs. item3 r = strand b \<Longrightarrow> \<exists>b'. add_blocks b qs = Inr b'"
proof (induction qs arbitrary: b)
  case Nil
  then show ?case by simp
next
  case (Cons q qs)
  then have s: "item3 q = strand b" by simp
  let ?b1 = "b \<lparr> block_count := block_count b + 1,
       block_sizes := block_sizes b @ [item2 q - (item1 q - 1)],
       start := min (start b) (item1 q - 1),
       block_starts := map (\<lambda>s. s + start b - min (start b) (item1 q - 1)) (block_starts b)
                       @ [item1 q - 1 - min (start b) (item1 q - 1)],
       bed_end := max (bed_end b) (item2 q) \<rparr>"
  have "\<forall>r \<in> set qs. item3 r = strand ?b1" using Cons.prems by simp
  from Cons.IH [OF this] show ?case by (simp add: add_block_Inr [OF s])
qed

lemma add_blocks_fields:
  "add_blocks b qs = Inr b' \<Longrightarrow>
     regions b' = regions b \<and> name b' = name b \<and> union_opt b' = union_opt b \<and>
     chrom b' = chrom b \<and> strand b' = strand b"
proof (induction qs arbitrary: b)
  case Nil
  then show ?case by simp
next
  case (Cons q qs)
  from Cons.prems obtain b1 where b1: "add_block b q = Inr b1" "add_blocks b1 qs = Inr b'"
    by (auto split: sum.splits)
  have s: "item3 q = strand b"
    using b1(1) by (cases "item3 q = strand b") (simp_all add: add_block_Inl)
  from b1(1) have "regions b1 = regions b \<and> name b1 = name b \<and> union_opt b1 = union_opt b \<and>
     chrom b1 = chrom b \<and> strand b1 = strand b"
    by (auto simp: add_block_Inr [OF s])
  with Cons.IH [OF b1(2)] show ?case by simp
qed

lemma parse_region_built: "built_from (parse_region rs nm un r) [r]"
  by (simp add: built_from_def parse_region_def Let_def)

lemma parse_regions_built:
  assumes "parse_regions rs nm un = Inr b"
  shows "built_from b rs"
proof (cases rs)
  case Nil
  with assms show ?thesis by (simp add: parse_regions_def)
next
  case (Cons r0 rest)
  with assms have "add_blocks (parse_region rs nm un r0) rest = Inr b"
    by (simp add: parse_regions_def)
  from add_blocks_built [OF parse_region_built this] Cons show ?thesis by simp
qed

lemma parse_regions_fields:
  assumes "parse_regions rs nm un = Inr b"
  shows "regions b = rs \<and> name b = nm \<and> union_opt b = un"
proof (cases rs)
  case Nil
  with assms show ?thesis by (simp add: parse_regions_def)
next
  case (Cons r0 rest)
  with assms have "add_blocks (parse_region rs nm un r0) rest = Inr b"
    by (simp add: parse_regions_def)
  from add_blocks_fields [OF this] show ?thesis by (simp add: parse_region_def Let_def)
qed

lemma parse_regions_total:
  assumes "rs \<noteq> []" "\<forall>r \<in> set rs. item3 r = item3 (hd rs)"
  shows "\<exists>b. parse_regions rs nm un = Inr b"
proof -
  from assms(1) obtain r0 rest where rs: "rs = r0 # rest" by (cases rs) auto
  have "\<forall>r \<in> set rest. item3 r = strand (parse_region rs nm un r0)"
    using assms(2) rs by (simp add: parse_region_def Let_def)
  from add_blocks_total [OF this] show ?thesis by (simp add: parse_regions_def rs)
qed

lemma parse_regions_error:
  "rs \<noteq> [] \<Longrightarrow> parse_regions rs nm un = Inl e \<Longrightarrow> e = AssertionError []"
  by (cases rs) (auto simp: parse_regions_def dest: add_blocks_error)

section \<open>The sweep of the union\<close>

lemma card_set_1_iff: "card (set xs) = 1 \<longleftrightarrow> xs \<noteq> [] \<and> (\<forall>x \<in> set xs. x = hd xs)"
proof
  assume "card (set xs) = 1"
  then obtain a where a: "set xs = {a}" by (auto simp: card_1_singleton_iff)
  then have "xs \<noteq> []" by auto
  moreover from this a have "hd xs = a" by (metis hd_in_set singletonD)
  ultimately show "xs \<noteq> [] \<and> (\<forall>x \<in> set xs. x = hd xs)" using a by auto
next
  assume h: "xs \<noteq> [] \<and> (\<forall>x \<in> set xs. x = hd xs)"
  then have "set xs = {hd xs}" by auto
  then show "card (set xs) = 1" by simp
qed

lemma union_loop_append:
  "union_loop r1 rest (acc @ acc') = acc @ union_loop r1 rest acc'"
  by (induction rest arbitrary: r1 acc') auto

lemma union_loop_acc: "union_loop r1 rest acc = acc @ union_loop r1 rest []"
  using union_loop_append [of r1 rest acc "[]"] by simp

lemma union_loop_nonempty: "union_loop r1 rest acc \<noteq> []"
  by (induction rest arbitrary: r1 acc) auto

lemma union_loop_step:
  "union_loop r1 (r2 # rest) [] =
     (if r_end r1 < r_start r2 then r1 # union_loop r2 rest []
      else union_loop (Region (r_start r1) (max (r_end r1) (r_end r2))) rest [])"
  using union_loop_acc [of r2 rest "[r1]"] by (simp add: max_def)

lemma union_loop_sorted:
  "sorted (map r_start (r1 # rest)) \<Longrightarrow>
     sorted_wrt (\<lambda>a b. r_end a < r_start b) (union_loop r1 rest []) \<and>
     sorted (map r_start (union_loop r1 rest [])) \<and>
     (\<forall>u \<in> set (union_loop r1 rest []). r_start r1 \<le> r_start u) \<and>
     r_start (hd (union_loop r1 rest [])) = r_start r1"
proof (induction rest arbitrary: r1)
  case Nil
  then show ?case by simp
next
  case (Cons r2 rest)
  show ?case
  proof (cases "r_end r1 < r_start r2")
    case True
    have "sorted (map r_start (r2 # rest))" using Cons.prems by simp
    from Cons.IH [OF this] have ih:
      "sorted_wrt (\<lambda>a b. r_end a < r_start b) (union_loop r2 rest [])"
      "sorted (map r_start (union_loop r2 rest []))"
      "\<forall>u \<in> set (union_loop r2 rest []). r_start r2 \<le> r_start u" by simp_all
    have le: "r_start r1 \<le> r_start r2" using Cons.prems by simp
    show ?thesis using True ih le by (auto simp: union_loop_step simp del: union_loop.simps(2))
  next
    case False
    let ?m = "Region (r_start r1) (max (r_end r1) (r_end r2))"
    have "sorted (map r_start (?m # rest))" using Cons.prems by simp
    from Cons.IH [OF this] show ?thesis using False by (simp add: union_loop_step del: union_loop.simps(2))
  qed
qed

lemma union_loop_cover:
  "sorted (map r_start (r1 # rest)) \<Longrightarrow>
     (\<Union>u \<in> set (union_loop r1 rest []). cov u) = cov r1 \<union> (\<Union>u \<in> set rest. cov u)"
proof (induction rest arbitrary: r1)
  case Nil
  then show ?case by simp
next
  case (Cons r2 rest)
  have le: "r_start r1 \<le> r_start r2" using Cons.prems by simp
  show ?case
  proof (cases "r_end r1 < r_start r2")
    case True
    have "sorted (map r_start (r2 # rest))" using Cons.prems by simp
    from Cons.IH [OF this] show ?thesis using True by (simp add: union_loop_step del: union_loop.simps(2))
  next
    case False
    let ?m = "Region (r_start r1) (max (r_end r1) (r_end r2))"
    have "sorted (map r_start (?m # rest))" using Cons.prems by simp
    from Cons.IH [OF this]
    have "(\<Union>u \<in> set (union_loop ?m rest []). cov u) = cov ?m \<union> (\<Union>u \<in> set rest. cov u)" .
    moreover have "cov ?m = cov r1 \<union> cov r2"
      using False le by (auto simp: cov_def)
    ultimately show ?thesis using False by (auto simp: union_loop_step simp del: union_loop.simps(2))
  qed
qed

lemma union_loop_Max_end:
  "Max (r_end ` set (union_loop r1 rest [])) = Max (r_end ` set (r1 # rest))"
proof (induction rest arbitrary: r1)
  case Nil
  then show ?case by simp
next
  case (Cons r2 rest)
  show ?case
  proof (cases "r_end r1 < r_start r2")
    case True
    have ne: "r_end ` set (union_loop r2 rest []) \<noteq> {}" by (simp add: union_loop_nonempty)
    have "Max (r_end ` set (r1 # union_loop r2 rest [])) =
          max (r_end r1) (Max (r_end ` set (union_loop r2 rest [])))"
      using ne by simp
    also have "\<dots> = max (r_end r1) (Max (r_end ` set (r2 # rest)))"
      by (simp only: Cons.IH)
    also have "\<dots> = Max (r_end ` set (r1 # r2 # rest))" by simp
    finally show ?thesis using True by (simp only: union_loop_step if_True)
  next
    case False
    let ?m = "Region (r_start r1) (max (r_end r1) (r_end r2))"
    have "Max (r_end ` set (union_loop ?m rest [])) = Max (r_end ` set (?m # rest))"
      by (rule Cons.IH)
    also have "\<dots> = Max (r_end ` set (r1 # r2 # rest))"
      by (cases "rest = []") (simp_all add: max.assoc)
    finally show ?thesis using False by (simp only: union_loop_step if_False)
  qed
qed

lemma union_loop_Min_start:
  assumes "sorted (map r_start (r1 # rest))"
  shows "Min (r_start ` set (union_loop r1 rest [])) = Min (r_start ` set (r1 # rest))"
proof -
  let ?out = "union_loop r1 rest []"
  have ne: "?out \<noteq> []" by (rule union_loop_nonempty)
  from union_loop_sorted [OF assms]
  have lb: "\<forall>u \<in> set ?out. r_start r1 \<le> r_start u" and hd: "r_start (hd ?out) = r_start r1"
    by simp_all
  have "r_start r1 \<in> r_start ` set ?out" using ne hd by (metis hd_in_set imageI)
  then have "Min (r_start ` set ?out) = r_start r1"
    using lb by (intro Min_eqI) auto
  moreover have "Min (r_start ` set (r1 # rest)) = r_start r1"
    using assms by (intro Min_eqI) auto
  ultimately show ?thesis by simp
qed

lemma union_loop_sum:
  "\<forall>u \<in> set (r1 # rest). r_start u \<le> r_end u \<Longrightarrow>
     sum_list (map rsize (union_loop r1 rest [])) \<le> rsize r1 + sum_list (map rsize rest)"
proof (induction rest arbitrary: r1)
  case Nil
  then show ?case by simp
next
  case (Cons r2 rest)
  show ?case
  proof (cases "r_end r1 < r_start r2")
    case True
    have "\<forall>u \<in> set (r2 # rest). r_start u \<le> r_end u" using Cons.prems by simp
    from Cons.IH [OF this] show ?thesis using True by (simp add: union_loop_step del: union_loop.simps(2))
  next
    case False
    let ?m = "Region (r_start r1) (max (r_end r1) (r_end r2))"
    have "\<forall>u \<in> set (?m # rest). r_start u \<le> r_end u" using Cons.prems by auto
    from Cons.IH [OF this]
    have "sum_list (map rsize (union_loop ?m rest [])) \<le> rsize ?m + sum_list (map rsize rest)" .
    moreover have "rsize ?m \<le> rsize r1 + rsize r2"
      using False Cons.prems by (auto simp: rsize_def max_def)
    ultimately show ?thesis using False by (simp add: union_loop_step del: union_loop.simps(2))
  qed
qed

lemma union_loop_separate:
  "sorted_wrt (\<lambda>a b. r_end a < r_start b) (r1 # rest) \<Longrightarrow> union_loop r1 rest [] = r1 # rest"
  by (induction rest arbitrary: r1) (auto simp: union_loop_step simp del: union_loop.simps(2))

lemma union_loop_length: "length (union_loop r1 rest []) \<le> Suc (length rest)"
proof (induction rest arbitrary: r1)
  case Nil
  then show ?case by simp
next
  case (Cons r2 rest)
  show ?case
    using Cons.IH [of r2] Cons.IH [of "Region (r_start r1) (max (r_end r1) (r_end r2))"]
    by (simp add: union_loop_step del: union_loop.simps(2))
qed

lemma sort_key_nonempty: "xs \<noteq> [] \<Longrightarrow> sort_key f xs \<noteq> []"
proof -
  assume "xs \<noteq> []"
  moreover have "length (sort_key f xs) = length xs" by simp
  ultimately show ?thesis by (metis length_0_conv)
qed

lemma card_map_1_iff:
  "card (set (map f rs)) = 1 \<longleftrightarrow> rs \<noteq> [] \<and> (\<forall>r \<in> set rs. f r = f (hd rs))"
  unfolding card_set_1_iff by (cases rs) auto

lemma get_union_regions_Inr:
  assumes "rs \<noteq> []" "\<forall>r \<in> set rs. item0 r = item0 (hd rs)" "\<forall>r \<in> set rs. item3 r = item3 (hd rs)"
  shows "get_union_regions rs =
           Inr (map (retag (item0 (hd rs)) (item3 (hd rs)))
                  (union_loop (hd (sort_key r_start (map as_Region rs)))
                              (tl (sort_key r_start (map as_Region rs))) []))"
proof -
  have c0: "card (set (map item0 rs)) = 1"
    unfolding card_map_1_iff using assms(1,2) by (intro conjI)
  have c3: "card (set (map item3 rs)) = 1"
    unfolding card_map_1_iff using assms(1,3) by (intro conjI)
  define S where "S = sort_key r_start (map as_Region rs)"
  obtain r0 rest0 where rs: "rs = r0 # rest0" using assms(1) by (cases rs) auto
  have "S \<noteq> []"
    using assms(1) by (simp add: S_def sort_key_nonempty)
  then obtain r1 rest where S: "S = r1 # rest" by (cases S) auto
  have "get_union_regions rs =
          (case rs of [] \<Rightarrow> Inl IndexError
           | r0 # _ \<Rightarrow> (case S of [] \<Rightarrow> Inl IndexError
                | r1 # rest \<Rightarrow> Inr (map (retag (item0 r0) (item3 r0)) (union_loop r1 rest []))))"
    unfolding get_union_regions_def S_def using c0 c3 by simp
  also have "\<dots> = Inr (map (retag (item0 (hd rs)) (item3 (hd rs))) (union_loop (hd S) (tl S) []))"
    by (simp add: S rs)
  finally show ?thesis unfolding S_def .
qed

lemma get_union_regions_chrom:
  assumes "\<not> (\<forall>r \<in> set rs. item0 r = item0 (hd rs))"
  shows "get_union_regions rs = Inl (AssertionError ''Not all regions in the same chromosome!'')"
proof -
  have c0: "card (set (map item0 rs)) \<noteq> 1"
    unfolding card_map_1_iff using assms by blast
  show ?thesis unfolding get_union_regions_def using c0 by simp
qed

lemma get_union_regions_strand:
  assumes "rs \<noteq> []" "\<forall>r \<in> set rs. item0 r = item0 (hd rs)"
    "\<not> (\<forall>r \<in> set rs. item3 r = item3 (hd rs))"
  shows "get_union_regions rs = Inl (AssertionError ''Not all regions at the same strand!'')"
proof -
  have c0: "card (set (map item0 rs)) = 1"
    unfolding card_map_1_iff using assms(1,2) by (intro conjI)
  have c3: "card (set (map item3 rs)) \<noteq> 1"
    unfolding card_map_1_iff using assms(3) by blast
  show ?thesis unfolding get_union_regions_def using c0 c3 by simp
qed

lemma get_union_regions_empty:
  "get_union_regions [] = Inl (AssertionError ''Not all regions in the same chromosome!'')"
  by (simp add: get_union_regions_def)

lemma get_union_regions_cases:
  assumes "get_union_regions rs = Inr us"
  shows "rs \<noteq> [] \<and> (\<forall>r \<in> set rs. item0 r = item0 (hd rs)) \<and> (\<forall>r \<in> set rs. item3 r = item3 (hd rs))"
proof -
  have ne: "rs \<noteq> []"
  proof
    assume "rs = []"
    with assms show False by (simp add: get_union_regions_empty)
  qed
  have c: "\<forall>r \<in> set rs. item0 r = item0 (hd rs)"
  proof (rule ccontr)
    assume "\<not> (\<forall>r \<in> set rs. item0 r = item0 (hd rs))"
    from get_union_regions_chrom [OF this] assms show False by simp
  qed
  have d: "\<forall>r \<in> set rs. item3 r = item3 (hd rs)"
  proof (rule ccontr)
    assume "\<not> (\<forall>r \<in> set rs. item3 r = item3 (hd rs))"
    from get_union_regions_strand [OF ne c this] assms show False by simp
  qed
  from ne c d show ?thesis by (intro conjI)
qed

section \<open>The assertions of the union\<close>

text \<open>
  Claim C3. On a non-empty list of regions, \<open>get_union_regions\<close> fails with the
  assertion error "Not all regions in the same chromosome!" when the chromosomes are not
  all the same, with "Not all regions at the same strand!" when the chromosomes agree
  and the strands do not, and returns a result when both agree. (The failed assertion
  is what the specification calls a ConsistencyError.)
\<close>

theorem get_union_regions_consistency:
  assumes "rs \<noteq> []"
  shows "(\<not> (\<forall>r \<in> set rs. item0 r = item0 (hd rs)) \<longrightarrow>
            get_union_regions rs = Inl (AssertionError ''Not all regions in the same chromosome!'')) \<and>
         ((\<forall>r \<in> set rs. item0 r = item0 (hd rs)) \<and> \<not> (\<forall>r \<in> set rs. item3 r = item3 (hd rs)) \<longrightarrow>
            get_union_regions rs = Inl (AssertionError ''Not all regions at the same strand!'')) \<and>
         ((\<forall>r \<in> set rs. item0 r = item0 (hd rs)) \<and> (\<forall>r \<in> set rs. item3 r = item3 (hd rs)) \<longrightarrow>
            (\<exists>us. get_union_regions rs = Inr us))"
proof (intro conjI impI)
  assume "\<not> (\<forall>r \<in> set rs. item0 r = item0 (hd rs))"
  then show "get_union_regions rs = Inl (AssertionError ''Not all regions in the same chromosome!'')"
    by (rule get_union_regions_chrom)
next
  assume "(\<forall>r \<in> set rs. item0 r = item0 (hd rs)) \<and> \<not> (\<forall>r \<in> set rs. item3 r = item3 (hd rs))"
  then show "get_union_regions rs = Inl (AssertionError ''Not all regions at the same strand!'')"
    using get_union_regions_strand [OF assms] by blast
next
  assume "(\<forall>r \<in> set rs. item0 r = item0 (hd rs)) \<and> (\<forall>r \<in> set rs. item3 r = item3 (hd rs))"
  then show "\<exists>us. get_union_regions rs = Inr us"
    using get_union_regions_Inr [OF assms] by blast
qed

theorem get_union_regions_consistency_witness:
  "get_union_regions [(''a'', 5, 10, ''+''), (''b'', 1, 2, ''+'')] =
     Inl (AssertionError ''Not all regions in the same chromosome!'') \<and>
   get_union_regions [(''a'', 5, 10, ''+''), (''a'', 1, 2, ''-'')] =
     Inl (AssertionError ''Not all regions at the same strand!'') \<and>
   (\<exists>us. get_union_regions [(''a'', 5, 10, ''+''), (''a'', 1, 2, ''+'')] = Inr us)"
  using get_union_regions_consistency [of "[(''a'', 5, 10, ''+''), (''b'', 1, 2, ''+'')]"]
        get_union_regions_consistency [of "[(''a'', 5, 10, ''+''), (''a'', 1, 2, ''-'')]"]
        get_union_regions_consistency [of "[(''a'', 5, 10, ''+''), (''a'', 1, 2, ''+'')]"]
  by simp

section \<open>The merge rule\<close>

lemma get_union_regions_pair:
  assumes "s1 \<le> s2"
  shows "get_union_regions [(c, s1, e1, d), (c, s2, e2, d)] =
           Inr (if e1 < s2 then [(c, s1, e1, d), (c, s2, e2, d)] else [(c, s1, max e1 e2, d)])"
proof -
  have S: "sort_key r_start (map as_Region [(c, s1, e1, d), (c, s2, e2, d)]) = [Region s1 e1, Region s2 e2]"
    using assms by (simp add: as_Region_def)
  show ?thesis
    unfolding get_union_regions_def S by (simp add: retag_def max_def)
qed

text \<open>
  Claim C5. In the sweep, the candidate \<open>r1\<close> and the next sorted interval \<open>r2\<close>
  stay separate exactly when \<open>r_end r1 < r_start r2\<close>; otherwise the candidate keeps
  its start and its end becomes the larger of the two ends. So two regions given in
  order of start are both returned when the first ends before the second starts, and are
  merged otherwise: (a,5,10) and (a,10,15) give (a,5,15), while (a,5,10) and (a,11,15)
  stay two intervals.
\<close>

theorem union_merge_rule:
  "union_loop r1 (r2 # rest) acc =
     (if r_end r1 < r_start r2 then union_loop r2 rest (acc @ [r1])
      else union_loop (Region (r_start r1) (max (r_end r1) (r_end r2))) rest acc) \<and>
   (s1 \<le> s2 \<longrightarrow>
      get_union_regions [(c, s1, e1, d), (c, s2, e2, d)] =
        Inr (if e1 < s2 then [(c, s1, e1, d), (c, s2, e2, d)] else [(c, s1, max e1 e2, d)])) \<and>
   get_union_regions [(''a'', 5, 10, ''+''), (''a'', 10, 15, ''+'')] = Inr [(''a'', 5, 15, ''+'')] \<and>
   get_union_regions [(''a'', 5, 10, ''+''), (''a'', 11, 15, ''+'')] =
     Inr [(''a'', 5, 10, ''+''), (''a'', 11, 15, ''+'')]"
proof -
  have 1: "union_loop r1 (r2 # rest) acc =
     (if r_end r1 < r_start r2 then union_loop r2 rest (acc @ [r1])
      else union_loop (Region (r_start r1) (max (r_end r1) (r_end r2))) rest acc)"
    by (simp add: max_def)
  have 2: "get_union_regions [(''a'', 5, 10, ''+''), (''a'', 10, 15, ''+'')] = Inr [(''a'', 5, 15, ''+'')]"
    using get_union_regions_pair [of 5 10 "''a''" 10 "''+''" 15] by simp
  have 3: "get_union_regions [(''a'', 5, 10, ''+''), (''a'', 11, 15, ''+'')] =
     Inr [(''a'', 5, 10, ''+''), (''a'', 11, 15, ''+'')]"
    using get_union_regions_pair [of 5 11 "''a''" 10 "''+''" 15] by simp
  have 4: "s1 \<le> s2 \<longrightarrow>
      get_union_regions [(c, s1, e1, d), (c, s2, e2, d)] =
        Inr (if e1 < s2 then [(c, s1, e1, d), (c, s2, e2, d)] else [(c, s1, max e1 e2, d)])"
    using get_union_regions_pair [of s1 s2 c e1 d e2] by (rule impI)
  from 1 4 2 3 show ?thesis by (intro conjI)
qed

theorem union_merge_rule_witness:
  "union_loop (Region 5 10) [Region 7 8, Region 12 13] [] = [Region 5 10, Region 12 13] \<and>
   get_union_regions [(''a'', 5, 10, ''+''), (''a'', 8, 9, ''+'')] = Inr [(''a'', 5, 10, ''+'')]"
  using union_merge_rule [of "Region 5 10" "Region 7 8" "[Region 12 13]" "[]" 5 8 "''a''" 10 "''+''" 9]
  by simp

section \<open>The extended sequence\<close>

text \<open>
  Claim C9. The extended sequence is the sequence followed by its first
  \<open>min 30 (length S)\<close> characters; a sequence shorter than 30 characters is followed by
  the whole of itself; the first \<open>length S\<close> characters of the extended sequence are
  the sequence.
\<close>

theorem extended_seq_prefix:
  "extended_seq S = S @ take (min 30 (length S)) S \<and>
   take (length S) (extended_seq S) = S \<and>
   length (extended_seq S) = length S + min 30 (length S) \<and>
   (length S < 30 \<longrightarrow> extended_seq S = S @ S)"
  by (simp add: extended_seq_def min_def)

theorem extended_seq_prefix_witness:
  "extended_seq ''ACGT'' = ''ACGTACGT'' \<and> take 4 (extended_seq ''ACGT'') = ''ACGT''"
  using extended_seq_prefix [of "''ACGT''"] by simp

section \<open>Empty region lists\<close>

lemma get_union_regions_nonempty:
  assumes "get_union_regions rs = Inr us"
  shows "us \<noteq> []"
proof -
  from get_union_regions_cases [OF assms]
  have h: "rs \<noteq> []" "\<forall>r \<in> set rs. item0 r = item0 (hd rs)" "\<forall>r \<in> set rs. item3 r = item3 (hd rs)"
    by blast+
  have "get_union_regions rs = Inr (map (retag (item0 (hd rs)) (item3 (hd rs)))
                  (union_loop (hd (sort_key r_start (map as_Region rs)))
                              (tl (sort_key r_start (map as_Region rs))) []))"
    by (rule get_union_regions_Inr [OF h])
  with assms have "us = map (retag (item0 (hd rs)) (item3 (hd rs)))
                  (union_loop (hd (sort_key r_start (map as_Region rs)))
                              (tl (sort_key r_start (map as_Region rs))) [])"
    by simp
  then show ?thesis by (simp add: union_loop_nonempty)
qed

lemma get_union_regions_error:
  assumes "rs \<noteq> []"
  shows "get_union_regions rs \<noteq> Inl IndexError"
proof (cases "\<forall>r \<in> set rs. item0 r = item0 (hd rs)")
  case False
  show ?thesis by (simp add: get_union_regions_chrom [OF False])
next
  case c: True
  show ?thesis
  proof (cases "\<forall>r \<in> set rs. item3 r = item3 (hd rs)")
    case False
    show ?thesis by (simp add: get_union_regions_strand [OF assms c False])
  next
    case d: True
    show ?thesis by (simp add: get_union_regions_Inr [OF assms c d])
  qed
qed

text \<open>
  Claim C10. Constructing a \<open>Bed\<close> from an empty region list fails on both paths: on
  the raw path with the IndexError of the read of \<^verbatim>\<open>regions[0]\<close>, on the union path
  with the failed assertion on the chromosomes, which comes before that read. From a
  non-empty list no path ends in an IndexError.
\<close>

theorem Bed_init_empty_fails:
  "Bed_init [] nm False = Inl IndexError \<and>
   Bed_init [] nm True = Inl (AssertionError ''Not all regions in the same chromosome!'') \<and>
   (rs \<noteq> [] \<longrightarrow> Bed_init rs nm un \<noteq> Inl IndexError)"
proof -
  have 1: "Bed_init [] nm False = Inl IndexError"
    by (simp add: Bed_init_def reverse_regions_if_minus_strand_def)
  have 2: "Bed_init [] nm True = Inl (AssertionError ''Not all regions in the same chromosome!'')"
    by (simp add: Bed_init_def get_union_regions_empty)
  have 3: "Bed_init rs nm un \<noteq> Inl IndexError" if ne: "rs \<noteq> []"
  proof (cases un)
    case False
    obtain r0 rest where rs: "rs = r0 # rest" using ne by (cases rs) auto
    show ?thesis
    proof (cases "item3 r0 = ''-''")
      case m: True
      have ne': "rev rs \<noteq> []" using ne by simp
      have "Bed_init rs nm un = parse_regions (rev rs) nm un"
        using False m by (simp add: Bed_init_def reverse_regions_if_minus_strand_def rs)
      then show ?thesis using parse_regions_error [OF ne', of nm un IndexError] by auto
    next
      case p: False
      have "Bed_init rs nm un = parse_regions rs nm un"
        using False p by (simp add: Bed_init_def reverse_regions_if_minus_strand_def rs)
      then show ?thesis using parse_regions_error [OF ne, of nm un IndexError] by auto
    qed
  next
    case True
    show ?thesis
    proof (cases "get_union_regions rs")
      case (Inl e)
      then show ?thesis using True get_union_regions_error [OF ne] by (simp add: Bed_init_def)
    next
      case (Inr us)
      have "us \<noteq> []" using get_union_regions_nonempty [OF Inr] .
      then show ?thesis using True Inr parse_regions_error [of us nm un] by (auto simp: Bed_init_def)
    qed
  qed
  from 1 2 3 show ?thesis by blast
qed

theorem Bed_init_empty_fails_witness:
  "Bed_init [] ''n'' False = Inl IndexError \<and>
   Bed_init [] ''n'' True = Inl (AssertionError ''Not all regions in the same chromosome!'') \<and>
   Bed_init [(''a'', 5, 10, ''+'')] ''n'' True \<noteq> Inl IndexError"
  using Bed_init_empty_fails [of "''n''" "[(''a'', 5, 10, ''+'')]" True] by simp

section \<open>The reversal on the raw path\<close>

text \<open>
  Claim C7. On the raw path, a non-empty region list whose first region has strand
  \<^verbatim>\<open>'-'\<close> is built as \<^verbatim>\<open>_parse_regions\<close> builds the reversed list, and any other
  list as \<^verbatim>\<open>_parse_regions\<close> builds it unchanged; a record that is built reports the
  strand of the first region of the list given.
\<close>

theorem raw_path_reversal:
  assumes "rs \<noteq> []"
  shows "Bed_init rs nm False =
           (if item3 (hd rs) = ''-'' then parse_regions (rev rs) nm False
            else parse_regions rs nm False) \<and>
         (\<forall>b. Bed_init rs nm False = Inr b \<longrightarrow> strand b = item3 (hd rs))"
proof -
  obtain r0 rest where rs: "rs = r0 # rest" using assms by (cases rs) auto
  have eq: "Bed_init rs nm False =
           (if item3 (hd rs) = ''-'' then parse_regions (rev rs) nm False
            else parse_regions rs nm False)"
    by (simp add: Bed_init_def reverse_regions_if_minus_strand_def rs)
  have st: "strand b = item3 (hd rs)" if b: "Bed_init rs nm False = Inr b" for b
  proof -
    have "built_from b (rev rs) \<or> built_from b rs"
    proof (cases "item3 (hd rs) = ''-''")
      case True
      with b eq have "parse_regions (rev rs) nm False = Inr b" by simp
      then show ?thesis by (simp add: parse_regions_built)
    next
      case False
      with b eq have "parse_regions rs nm False = Inr b" by simp
      then show ?thesis by (simp add: parse_regions_built)
    qed
    then have "\<forall>r \<in> set rs. item3 r = strand b"
      unfolding built_from_def by (elim disjE conjE) simp_all
    then show ?thesis using assms by simp
  qed
  show ?thesis
  proof (intro conjI allI impI)
    show "Bed_init rs nm False =
           (if item3 (hd rs) = ''-'' then parse_regions (rev rs) nm False
            else parse_regions rs nm False)" by (rule eq)
  next
    fix b assume "Bed_init rs nm False = Inr b"
    then show "strand b = item3 (hd rs)" by (rule st)
  qed
qed

theorem raw_path_reversal_witness:
  "Bed_init [(''a'', 5, 10, ''-''), (''a'', 11, 15, ''-'')] ''n'' False =
     parse_regions [(''a'', 11, 15, ''-''), (''a'', 5, 10, ''-'')] ''n'' False \<and>
   Bed_init [(''a'', 5, 10, ''-''), (''a'', 11, 15, ''-'')] ''n'' False =
     Inr \<lparr> regions = [(''a'', 11, 15, ''-''), (''a'', 5, 10, ''-'')], name = ''n'',
           union_opt = False, chrom = ''a'', start = 4, bed_end = 15, strand = ''-'',
           block_count = 2, block_sizes = [5, 6], block_starts = [6, 0] \<rparr>"
  using raw_path_reversal [of "[(''a'', 5, 10, ''-''), (''a'', 11, 15, ''-'')]" "''n''"]
  by (simp add: parse_regions_def parse_region_def add_block_def Bed_single_def Let_def)

section \<open>What the union returns\<close>

lemma retag_items [simp]:
  "item0 (retag c d u) = c" "item1 (retag c d u) = r_start u"
  "item2 (retag c d u) = r_end u" "item3 (retag c d u) = d"
  by (simp_all add: retag_def)

lemma as_Region_sel [simp]:
  "r_start (as_Region r) = item1 r" "r_end (as_Region r) = item2 r"
  by (simp_all add: as_Region_def)

lemma covered_retag: "covered (retag c d u) = cov u"
  by (simp add: covered_def cov_def)

lemma cov_as_Region: "cov (as_Region r) = covered r"
  by (simp add: covered_def cov_def)

lemma union_regions_sweep:
  assumes "get_union_regions rs = Inr us"
  shows "\<exists>r1 rest. sort_key r_start (map as_Region rs) = r1 # rest \<and>
           us = map (retag (item0 (hd rs)) (item3 (hd rs))) (union_loop r1 rest [])"
proof -
  from get_union_regions_cases [OF assms]
  have h: "rs \<noteq> []" "\<forall>r \<in> set rs. item0 r = item0 (hd rs)" "\<forall>r \<in> set rs. item3 r = item3 (hd rs)"
    by blast+
  let ?S = "sort_key r_start (map as_Region rs)"
  have "?S \<noteq> []" using h(1) by (simp add: sort_key_nonempty)
  then have S: "?S = hd ?S # tl ?S" by simp
  have "get_union_regions rs = Inr (map (retag (item0 (hd rs)) (item3 (hd rs)))
                  (union_loop (hd ?S) (tl ?S) []))"
    by (rule get_union_regions_Inr [OF h])
  with assms have "us = map (retag (item0 (hd rs)) (item3 (hd rs))) (union_loop (hd ?S) (tl ?S) [])"
    by simp
  with S show ?thesis by blast
qed

lemma union_regions_sorted:
  assumes "get_union_regions rs = Inr us"
  shows "sorted (map item1 us) \<and> sorted_wrt (\<lambda>a b. item2 a < item1 b) us"
proof -
  from union_regions_sweep [OF assms] obtain r1 rest where
    S: "sort_key r_start (map as_Region rs) = r1 # rest" and
    us: "us = map (retag (item0 (hd rs)) (item3 (hd rs))) (union_loop r1 rest [])" by blast
  have "sorted (map r_start (sort_key r_start (map as_Region rs)))" by (rule sorted_sort_key)
  then have "sorted (map r_start (r1 # rest))" by (simp only: S)
  from union_loop_sorted [OF this]
  have "sorted_wrt (\<lambda>a b. r_end a < r_start b) (union_loop r1 rest [])"
       "sorted (map r_start (union_loop r1 rest []))" by simp_all
  then show ?thesis by (simp add: us sorted_wrt_map comp_def)
qed

lemma union_regions_cover:
  assumes "get_union_regions rs = Inr us"
  shows "\<Union> (covered ` set us) = \<Union> (covered ` set rs)"
proof -
  from union_regions_sweep [OF assms] obtain r1 rest where
    S: "sort_key r_start (map as_Region rs) = r1 # rest" and
    us: "us = map (retag (item0 (hd rs)) (item3 (hd rs))) (union_loop r1 rest [])" by blast
  have "sorted (map r_start (sort_key r_start (map as_Region rs)))" by (rule sorted_sort_key)
  then have "sorted (map r_start (r1 # rest))" by (simp only: S)
  from union_loop_cover [OF this]
  have "(\<Union>u \<in> set (union_loop r1 rest []). cov u) = (\<Union>u \<in> set (r1 # rest). cov u)" by simp
  also have "set (r1 # rest) = set (map as_Region rs)"
    using S set_sort [of r_start "map as_Region rs"] by simp
  finally have "(\<Union>u \<in> set (union_loop r1 rest []). cov u) = (\<Union>r \<in> set rs. covered r)"
    by (simp add: cov_as_Region)
  then show ?thesis by (simp add: us covered_retag)
qed

lemma union_regions_tags:
  assumes "get_union_regions rs = Inr us"
  shows "\<forall>u \<in> set us. item0 u = item0 (hd rs) \<and> item3 u = item3 (hd rs)"
proof -
  from union_regions_sweep [OF assms] obtain r1 rest where
    us: "us = map (retag (item0 (hd rs)) (item3 (hd rs))) (union_loop r1 rest [])" by blast
  show ?thesis by (auto simp: us)
qed

text \<open>
  Claim C4. For every non-empty list of regions that share one chromosome and one
  strand, \<open>get_union_regions\<close> returns intervals that are sorted ascending by start
  and pairwise separated (an earlier one ends before a later one starts, so no two share
  a position), that cover exactly the positions the given regions cover, and that each
  carry the shared chromosome and strand.
\<close>

theorem union_sorted_disjoint_cover:
  assumes "rs \<noteq> []"
    and "\<forall>r \<in> set rs. item0 r = item0 (hd rs)"
    and "\<forall>r \<in> set rs. item3 r = item3 (hd rs)"
  shows "\<exists>us. get_union_regions rs = Inr us \<and>
           sorted (map item1 us) \<and>
           (\<forall>i j. i < j \<and> j < length us \<longrightarrow>
              item2 (us ! i) < item1 (us ! j) \<and> covered (us ! i) \<inter> covered (us ! j) = {}) \<and>
           \<Union> (covered ` set us) = \<Union> (covered ` set rs) \<and>
           (\<forall>u \<in> set us. item0 u = item0 (hd rs) \<and> item3 u = item3 (hd rs))"
proof -
  from get_union_regions_Inr [OF assms] obtain us where us: "get_union_regions rs = Inr us"
    by blast
  have gap: "sorted_wrt (\<lambda>a b. item2 a < item1 b) us" and srt: "sorted (map item1 us)"
    using union_regions_sorted [OF us] by simp_all
  have sep: "item2 (us ! i) < item1 (us ! j) \<and> covered (us ! i) \<inter> covered (us ! j) = {}"
    if "i < j \<and> j < length us" for i j
  proof -
    have "item2 (us ! i) < item1 (us ! j)"
      using gap that by (simp add: sorted_wrt_iff_nth_less)
    then show ?thesis by (auto simp: covered_def)
  qed
  have sepall: "\<forall>i j. i < j \<and> j < length us \<longrightarrow>
              item2 (us ! i) < item1 (us ! j) \<and> covered (us ! i) \<inter> covered (us ! j) = {}"
    using sep by (intro allI impI)
  show ?thesis
    by (rule exI [of _ us])
      (intro conjI us srt sepall union_regions_cover [OF us] union_regions_tags [OF us])
qed

theorem union_sorted_disjoint_cover_witness:
  "\<exists>us. get_union_regions [(''a'', 10, 15, ''+''), (''a'', 5, 10, ''+''), (''a'', 20, 22, ''+'')] = Inr us \<and>
      us = [(''a'', 5, 15, ''+''), (''a'', 20, 22, ''+'')] \<and>
      sorted (map item1 us) \<and>
      \<Union> (covered ` set us) =
        \<Union> (covered ` set [(''a'', 10, 15, ''+''), (''a'', 5, 10, ''+''), (''a'', 20, 22, ''+'')])"
proof -
  let ?rs = "[(''a'', 10, 15, ''+''), (''a'', 5, 10, ''+''), (''a'', 20, 22, ''+'')] :: region list"
  have h1: "?rs \<noteq> []" by simp
  have h2: "\<forall>r \<in> set ?rs. item0 r = item0 (hd ?rs)" by simp
  have h3: "\<forall>r \<in> set ?rs. item3 r = item3 (hd ?rs)" by simp
  have v: "get_union_regions ?rs = Inr [(''a'', 5, 15, ''+''), (''a'', 20, 22, ''+'')]"
    by (simp add: get_union_regions_def as_Region_def retag_def)
  from union_sorted_disjoint_cover [OF h1 h2 h3] obtain us where
    u: "get_union_regions ?rs = Inr us" "sorted (map item1 us)"
    "\<Union> (covered ` set us) = \<Union> (covered ` set ?rs)" by (elim exE conjE)
  from u(1) v have e: "us = [(''a'', 5, 15, ''+''), (''a'', 20, 22, ''+'')]" by simp
  show ?thesis by (rule exI [of _ us]) (intro conjI u e)
qed

lemma Bed_init_raw_total:
  assumes "rs \<noteq> []" and s: "\<forall>r \<in> set rs. item3 r = item3 (hd rs)"
  shows "\<exists>b. Bed_init rs nm False = Inr b"
proof -
  obtain r0 rest where rs: "rs = r0 # rest" using assms(1) by (cases rs) auto
  let ?ps = "if item3 (hd rs) = ''-'' then rev rs else rs"
  have eq: "Bed_init rs nm False = parse_regions ?ps nm False"
    by (cases "item3 r0 = ''-''")
      (simp_all add: Bed_init_def reverse_regions_if_minus_strand_def rs)
  have ne: "?ps \<noteq> []" using assms(1) by simp
  have sp: "set ?ps = set rs" by simp
  have "hd ?ps \<in> set rs" using assms(1) by (simp add: hd_rev)
  then have hps: "item3 (hd ?ps) = item3 (hd rs)" using s by blast
  have "\<forall>r \<in> set ?ps. item3 r = item3 (hd ?ps)"
    unfolding sp hps by (rule s)
  from parse_regions_total [OF ne this, of nm False] eq
  show ?thesis by simp
qed

section \<open>The invariants of a built record\<close>

lemma built_from_shape:
  assumes "built_from b ps"
  shows "block_count b = int (length (block_sizes b)) \<and>
         length (block_sizes b) = length (block_starts b) \<and>
         (\<forall>i < length (block_starts b).
            block_starts b ! i + block_sizes b ! i \<le> bed_end b - start b)"
proof -
  from assms have f: "ps \<noteq> []" "block_count b = int (length ps)"
    "block_sizes b = map (\<lambda>r. item2 r - (item1 r - 1)) ps"
    "block_starts b = map (\<lambda>r. item1 r - 1 - start b) ps"
    "bed_end b = Max (item2 ` set ps)"
    by (simp_all add: built_from_def)
  have "block_starts b ! i + block_sizes b ! i \<le> bed_end b - start b" if "i < length ps" for i
  proof -
    have "item2 (ps ! i) \<le> Max (item2 ` set ps)" using that by simp
    then show ?thesis using that by (simp add: f)
  qed
  then show ?thesis by (simp add: f)
qed

lemma Min_shift:
  assumes "xs \<noteq> []"
  shows "Min ((\<lambda>r. f r - 1) ` set xs) = Min (f ` set xs) - (1::int)"
proof -
  have "mono (\<lambda>x::int. x - 1)" by (simp add: mono_def)
  from mono_Min_commute [OF this, of "f ` set xs"] assms
  show ?thesis by (simp add: image_image)
qed

lemma union_regions_Min_Max:
  assumes "get_union_regions rs = Inr us"
  shows "Min ((\<lambda>r. item1 r - 1) ` set us) = Min ((\<lambda>r. item1 r - 1) ` set rs) \<and>
         Max (item2 ` set us) = Max (item2 ` set rs)"
proof -
  from union_regions_sweep [OF assms] obtain r1 rest where
    S: "sort_key r_start (map as_Region rs) = r1 # rest" and
    us: "us = map (retag (item0 (hd rs)) (item3 (hd rs))) (union_loop r1 rest [])" by blast
  have ne: "rs \<noteq> []" using get_union_regions_cases [OF assms] by blast
  have une: "us \<noteq> []" by (rule get_union_regions_nonempty [OF assms])
  have "sorted (map r_start (sort_key r_start (map as_Region rs)))" by (rule sorted_sort_key)
  then have srt: "sorted (map r_start (r1 # rest))" by (simp only: S)
  have set_S: "set (r1 # rest) = as_Region ` set rs"
    using S set_sort [of r_start "map as_Region rs"] by simp
  have "Min (item1 ` set us) = Min (r_start ` set (union_loop r1 rest []))"
    by (simp add: us image_image)
  also have "\<dots> = Min (r_start ` set (r1 # rest))" by (rule union_loop_Min_start [OF srt])
  also have "\<dots> = Min (item1 ` set rs)" by (simp only: set_S) (simp add: image_image)
  finally have a: "Min (item1 ` set us) = Min (item1 ` set rs)" .
  have "Max (item2 ` set us) = Max (r_end ` set (union_loop r1 rest []))"
    by (simp add: us image_image)
  also have "\<dots> = Max (r_end ` set (r1 # rest))" by (rule union_loop_Max_end)
  also have "\<dots> = Max (item2 ` set rs)" by (simp only: set_S) (simp add: image_image)
  finally have b: "Max (item2 ` set us) = Max (item2 ` set rs)" .
  from a b show ?thesis by (simp add: Min_shift [OF ne] Min_shift [OF une])
qed

lemma Bed_init_built:
  assumes "Bed_init rs nm un = Inr b"
  shows "\<exists>ps. built_from b ps \<and> regions b = ps \<and>
           (if un then get_union_regions rs = Inr ps
            else ps = (if item3 (hd rs) = ''-'' then rev rs else rs) \<and> rs \<noteq> [])"
proof (cases un)
  case True
  with assms obtain us where us: "get_union_regions rs = Inr us" "parse_regions us nm un = Inr b"
    by (auto simp: Bed_init_def split: sum.splits)
  from parse_regions_built [OF us(2)] parse_regions_fields [OF us(2)] us(1) True
  show ?thesis by simp
next
  case False
  have ne: "rs \<noteq> []"
  proof
    assume "rs = []"
    with assms False show False by (simp add: Bed_init_def reverse_regions_if_minus_strand_def)
  qed
  then obtain r0 rest where rs: "rs = r0 # rest" by (cases rs) auto
  let ?ps = "if item3 (hd rs) = ''-'' then rev rs else rs"
  have "Bed_init rs nm un = parse_regions ?ps nm un"
    using False by (cases "item3 r0 = ''-''")
      (simp_all add: Bed_init_def reverse_regions_if_minus_strand_def rs)
  with assms have "parse_regions ?ps nm un = Inr b" by simp
  from parse_regions_built [OF this] parse_regions_fields [OF this] False ne
  show ?thesis by simp
qed

lemma Bed_init_envelope:
  assumes "Bed_init rs nm un = Inr b"
  shows "rs \<noteq> [] \<and> start b = Min ((\<lambda>r. item1 r - 1) ` set rs) \<and> bed_end b = Max (item2 ` set rs)"
proof -
  from Bed_init_built [OF assms] obtain ps where ps: "built_from b ps"
    "if un then get_union_regions rs = Inr ps
     else ps = (if item3 (hd rs) = ''-'' then rev rs else rs) \<and> rs \<noteq> []" by blast
  from ps(1) have e: "start b = Min ((\<lambda>r. item1 r - 1) ` set ps)" "bed_end b = Max (item2 ` set ps)"
    by (simp_all add: built_from_def)
  show ?thesis
  proof (cases un)
    case True
    with ps(2) have u: "get_union_regions rs = Inr ps" by simp
    from union_regions_Min_Max [OF u] get_union_regions_cases [OF u] e show ?thesis by simp
  next
    case False
    with ps(2) have "set ps = set rs" "rs \<noteq> []" by (simp_all split: if_splits)
    with e show ?thesis by simp
  qed
qed

text \<open>
  Claim C6. For a non-empty region list in which every region has start \<open>\<le>\<close> end, in
  whatever order the regions come, every \<open>Bed\<close> the constructor builds (on either
  path) has \<open>block_count\<close> equal to the lengths of \<open>block_sizes\<close> and
  \<open>block_starts\<close>, its start is the least 0-based region start, its end the greatest
  region end, start \<open>\<le>\<close> end, and each block lies inside:
  \<open>block_starts[i] + block_sizes[i] \<le> end - start\<close>. On the raw path the record is
  built whenever the strands agree.
\<close>

theorem Bed_block_invariants:
  assumes "rs \<noteq> []" and "\<forall>r \<in> set rs. item1 r \<le> item2 r"
  shows "(\<forall>b. Bed_init rs nm un = Inr b \<longrightarrow>
            block_count b = int (length (block_sizes b)) \<and>
            length (block_sizes b) = length (block_starts b) \<and>
            start b = Min ((\<lambda>r. item1 r - 1) ` set rs) \<and>
            bed_end b = Max (item2 ` set rs) \<and>
            start b \<le> bed_end b \<and>
            (\<forall>i < length (block_starts b).
               block_starts b ! i + block_sizes b ! i \<le> bed_end b - start b)) \<and>
         ((\<forall>r \<in> set rs. item3 r = item3 (hd rs)) \<longrightarrow> (\<exists>b. Bed_init rs nm False = Inr b))"
proof -
  have A: "block_count b = int (length (block_sizes b)) \<and>
            length (block_sizes b) = length (block_starts b) \<and>
            start b = Min ((\<lambda>r. item1 r - 1) ` set rs) \<and>
            bed_end b = Max (item2 ` set rs) \<and>
            start b \<le> bed_end b \<and>
            (\<forall>i < length (block_starts b).
               block_starts b ! i + block_sizes b ! i \<le> bed_end b - start b)"
    if b: "Bed_init rs nm un = Inr b" for b
  proof -
    from Bed_init_built [OF b] obtain ps where ps: "built_from b ps" by blast
    note sh = built_from_shape [OF ps]
    note env = Bed_init_envelope [OF b]
    have hd_in: "hd rs \<in> set rs" using assms(1) by simp
    have "Min ((\<lambda>r. item1 r - 1) ` set rs) \<le> item1 (hd rs) - 1"
      using hd_in by (intro Min_le) auto
    moreover have "item1 (hd rs) \<le> item2 (hd rs)" using assms(2) hd_in by blast
    moreover have "item2 (hd rs) \<le> Max (item2 ` set rs)"
      using hd_in by (intro Max_ge) auto
    ultimately have le: "start b \<le> bed_end b"
      using env [THEN conjunct2, THEN conjunct1] env [THEN conjunct2, THEN conjunct2] by linarith
    show ?thesis
      by (intro conjI sh [THEN conjunct1] sh [THEN conjunct2, THEN conjunct1]
          sh [THEN conjunct2, THEN conjunct2] env [THEN conjunct2, THEN conjunct1]
          env [THEN conjunct2, THEN conjunct2] le)
  qed
  have B: "\<exists>b. Bed_init rs nm False = Inr b" if s: "\<forall>r \<in> set rs. item3 r = item3 (hd rs)"
    by (rule Bed_init_raw_total [OF assms(1) s])
  have A': "\<forall>b. Bed_init rs nm un = Inr b \<longrightarrow>
            block_count b = int (length (block_sizes b)) \<and>
            length (block_sizes b) = length (block_starts b) \<and>
            start b = Min ((\<lambda>r. item1 r - 1) ` set rs) \<and>
            bed_end b = Max (item2 ` set rs) \<and>
            start b \<le> bed_end b \<and>
            (\<forall>i < length (block_starts b).
               block_starts b ! i + block_sizes b ! i \<le> bed_end b - start b)"
    using A by (intro allI impI)
  have B': "(\<forall>r \<in> set rs. item3 r = item3 (hd rs)) \<longrightarrow> (\<exists>b. Bed_init rs nm False = Inr b)"
    using B by (intro impI)
  from A' B' show ?thesis by (rule conjI)
qed

theorem Bed_block_invariants_witness:
  "Bed_init [(''a'', 30, 40, ''+''), (''a'', 5, 10, ''+''), (''a'', 50, 52, ''+'')] ''n'' False =
     Inr \<lparr> regions = [(''a'', 30, 40, ''+''), (''a'', 5, 10, ''+''), (''a'', 50, 52, ''+'')],
           name = ''n'', union_opt = False, chrom = ''a'', start = 4, bed_end = 52,
           strand = ''+'', block_count = 3, block_sizes = [11, 6, 3],
           block_starts = [25, 0, 45] \<rparr> \<and>
   Min ((\<lambda>r. item1 r - 1) ` set [(''a'', 30, 40, ''+''), (''a'', 5, 10, ''+''), (''a'', 50, 52, ''+'')]) = 4 \<and>
   Max (item2 ` set [(''a'', 30, 40, ''+''), (''a'', 5, 10, ''+''), (''a'', 50, 52, ''+'')]) = 52"
proof -
  let ?rs = "[(''a'', 30, 40, ''+''), (''a'', 5, 10, ''+''), (''a'', 50, 52, ''+'')] :: region list"
  let ?b = "\<lparr> regions = ?rs,
           name = ''n'', union_opt = False, chrom = ''a'', start = 4, bed_end = 52,
           strand = ''+'', block_count = 3, block_sizes = [11, 6, 3],
           block_starts = [25, 0, 45] \<rparr>"
  have h1: "?rs \<noteq> []" by simp
  have h2: "\<forall>r \<in> set ?rs. item1 r \<le> item2 r" by simp
  have v: "Bed_init ?rs ''n'' False = Inr ?b"
    by (simp add: Bed_init_def reverse_regions_if_minus_strand_def parse_regions_def
        parse_region_def add_block_def Bed_single_def Let_def)
  note inv = Bed_block_invariants [OF h1 h2, of "''n''" False, THEN conjunct1, THEN spec, THEN mp, OF v]
  have "start ?b = Min ((\<lambda>r. item1 r - 1) ` set ?rs)"
    by (rule inv [THEN conjunct2, THEN conjunct2, THEN conjunct1])
  moreover have "bed_end ?b = Max (item2 ` set ?rs)"
    by (rule inv [THEN conjunct2, THEN conjunct2, THEN conjunct2, THEN conjunct1])
  ultimately show ?thesis using v by simp
qed

section \<open>The example isoform\<close>

lemma parse_example:
  "parse_isoform_data ''chr1|1,10,32|5,20,50|+'' =
     Inr \<lparr> iso_chr = ''chr1'', starts = [1, 10, 32], ends = [5, 20, 50], iso_strand = ''+'' \<rparr>"
  by (simp add: parse_isoform_data_def py_int_def strip_def is_space_def py_digits_def digit_val_def
        int_max_str_digits_def)

lemma raw_example:
  "Bed_init [(''chr1'', 1, 5, ''+''), (''chr1'', 10, 20, ''+''), (''chr1'', 32, 50, ''+'')]
       ''chr1|1,10,32|5,20,50|+'' False =
     Inr \<lparr> regions = [(''chr1'', 1, 5, ''+''), (''chr1'', 10, 20, ''+''), (''chr1'', 32, 50, ''+'')],
           name = ''chr1|1,10,32|5,20,50|+'', union_opt = False, chrom = ''chr1'',
           start = 0, bed_end = 50, strand = ''+'', block_count = 3,
           block_sizes = [5, 11, 19], block_starts = [0, 9, 31] \<rparr>"
  by (simp add: Bed_init_def reverse_regions_if_minus_strand_def parse_regions_def
        parse_region_def add_block_def Bed_single_def Let_def)

lemma union_example_regions:
  "get_union_regions [(''chr1'', 1, 5, ''+''), (''chr1'', 10, 20, ''+''), (''chr1'', 32, 50, ''+'')] =
     Inr [(''chr1'', 1, 5, ''+''), (''chr1'', 10, 20, ''+''), (''chr1'', 32, 50, ''+'')]"
  by (simp add: get_union_regions_def as_Region_def retag_def)

lemma union_example:
  "output_isoform_as_bed
       \<lparr> iso_chr = ''chr1'', starts = [1, 10, 32], ends = [5, 20, 50], iso_strand = ''+'' \<rparr>
       ''chr1|1,10,32|5,20,50|+'' =
     Inr \<lparr> regions = [(''chr1'', 1, 5, ''+''), (''chr1'', 10, 20, ''+''), (''chr1'', 32, 50, ''+'')],
           name = ''chr1|1,10,32|5,20,50|+'', union_opt = True, chrom = ''chr1'',
           start = 0, bed_end = 50, strand = ''+'', block_count = 3,
           block_sizes = [5, 11, 19], block_starts = [0, 9, 31] \<rparr>"
  by (simp add: output_isoform_as_bed_def isoform_regions_def Bed_init_def union_example_regions
        parse_regions_def parse_region_def add_block_def Bed_single_def Let_def)

text \<open>
  Claim C2, as amended. The line \<^verbatim>\<open>chr1|1,10,32|5,20,50|+\<close> parses to starts
  [1,10,32] and ends [5,20,50], and the record built for it, on the union path that the
  program takes and on the raw path alike, has block_count 3, start 0, end 50,
  block_sizes [5,11,19] and block_starts [0,9,31]: a block's size is \<open>end - (start - 1)\<close>.
\<close>

theorem example_isoform_record:
  "parse_isoform_data ''chr1|1,10,32|5,20,50|+'' =
     Inr \<lparr> iso_chr = ''chr1'', starts = [1, 10, 32], ends = [5, 20, 50], iso_strand = ''+'' \<rparr> \<and>
   output_isoform_as_bed
       \<lparr> iso_chr = ''chr1'', starts = [1, 10, 32], ends = [5, 20, 50], iso_strand = ''+'' \<rparr>
       ''chr1|1,10,32|5,20,50|+'' =
     Inr \<lparr> regions = [(''chr1'', 1, 5, ''+''), (''chr1'', 10, 20, ''+''), (''chr1'', 32, 50, ''+'')],
           name = ''chr1|1,10,32|5,20,50|+'', union_opt = True, chrom = ''chr1'',
           start = 0, bed_end = 50, strand = ''+'', block_count = 3,
           block_sizes = [5, 11, 19], block_starts = [0, 9, 31] \<rparr> \<and>
   Bed_init (isoform_regions
       \<lparr> iso_chr = ''chr1'', starts = [1, 10, 32], ends = [5, 20, 50], iso_strand = ''+'' \<rparr>)
       ''chr1|1,10,32|5,20,50|+'' False =
     Inr \<lparr> regions = [(''chr1'', 1, 5, ''+''), (''chr1'', 10, 20, ''+''), (''chr1'', 32, 50, ''+'')],
           name = ''chr1|1,10,32|5,20,50|+'', union_opt = False, chrom = ''chr1'',
           start = 0, bed_end = 50, strand = ''+'', block_count = 3,
           block_sizes = [5, 11, 19], block_starts = [0, 9, 31] \<rparr>"
  using parse_example union_example raw_example by (simp add: isoform_regions_def)

text \<open>
  The claim as written gives block_sizes [4,10,18]; neither path produces that list.
\<close>

theorem example_block_sizes_counterexample:
  "parse_isoform_data ''chr1|1,10,32|5,20,50|+'' =
     Inr \<lparr> iso_chr = ''chr1'', starts = [1, 10, 32], ends = [5, 20, 50], iso_strand = ''+'' \<rparr> \<and>
   map_sum id block_sizes (output_isoform_as_bed
       \<lparr> iso_chr = ''chr1'', starts = [1, 10, 32], ends = [5, 20, 50], iso_strand = ''+'' \<rparr>
       ''chr1|1,10,32|5,20,50|+'') \<noteq> Inr [4, 10, 18] \<and>
   map_sum id block_sizes (Bed_init (isoform_regions
       \<lparr> iso_chr = ''chr1'', starts = [1, 10, 32], ends = [5, 20, 50], iso_strand = ''+'' \<rparr>)
       ''chr1|1,10,32|5,20,50|+'' False) \<noteq> Inr [4, 10, 18]"
  using parse_example union_example raw_example by (simp add: isoform_regions_def)

section \<open>Covered length and the interval record\<close>

lemma sum_list_insort_key:
  fixes f :: "'a \<Rightarrow> int"
  shows "sum_list (map f (insort_key k x xs)) = f x + sum_list (map f xs)"
  by (induction xs) simp_all

lemma sum_list_sort_key:
  fixes f :: "'a \<Rightarrow> int"
  shows "sum_list (map f (sort_key k xs)) = sum_list (map f xs)"
  by (induction xs) (simp_all add: sum_list_insort_key)

lemma sorted_wrt_insort_key:
  assumes "\<And>a b. P a b \<Longrightarrow> P b a"
  shows "sorted_wrt P (insort_key k x xs) \<longleftrightarrow> (\<forall>y \<in> set xs. P x y) \<and> sorted_wrt P xs"
  using assms by (induction xs) (auto simp: set_insort_key)

lemma sorted_wrt_sort_key:
  assumes "\<And>a b. P a b \<Longrightarrow> P b a"
  shows "sorted_wrt P (sort_key k xs) \<longleftrightarrow> sorted_wrt P xs"
  by (induction xs) (simp_all add: sorted_wrt_insort_key [OF assms])

lemma disjoint_sorted_gap:
  assumes "sorted (map r_start xs)"
    and "sorted_wrt (\<lambda>a b. cov a \<inter> cov b = {}) xs"
    and "\<forall>u \<in> set xs. r_start u \<le> r_end u"
  shows "sorted_wrt (\<lambda>a b. r_end a < r_start b) xs"
  using assms
proof (induction xs)
  case Nil
  then show ?case by simp
next
  case (Cons x xs)
  have "r_end x < r_start y" if y: "y \<in> set xs" for y
  proof (rule ccontr)
    assume "\<not> r_end x < r_start y"
    moreover have "r_start x \<le> r_start y" using Cons.prems(1) y by simp
    moreover have "r_start y \<le> r_end y" using Cons.prems(3) y by simp
    ultimately have "r_start y - 1 \<in> cov x \<inter> cov y" by (simp add: cov_def)
    moreover have "cov x \<inter> cov y = {}" using Cons.prems(2) y by simp
    ultimately show False by simp
  qed
  moreover have "sorted_wrt (\<lambda>a b. r_end a < r_start b) xs"
    using Cons.IH Cons.prems by simp
  ultimately show ?case by simp
qed

lemma Bed_init_union_total:
  assumes "get_union_regions rs = Inr us"
  shows "\<exists>b. Bed_init rs nm True = Inr b"
proof -
  have ne: "us \<noteq> []" by (rule get_union_regions_nonempty [OF assms])
  then have "hd us \<in> set us" by simp
  with union_regions_tags [OF assms] have "item3 (hd us) = item3 (hd rs)" by blast
  with union_regions_tags [OF assms] have "\<forall>u \<in> set us. item3 u = item3 (hd us)" by metis
  from parse_regions_total [OF ne this, of nm True] show ?thesis
    by (simp add: Bed_init_def assms)
qed

lemma raw_block_sizes:
  assumes "Bed_init rs nm False = Inr raw"
  shows "sum_list (block_sizes raw) = sum_list (map (\<lambda>r. item2 r - (item1 r - 1)) rs)"
proof -
  from Bed_init_built [OF assms] obtain ps where ps: "built_from raw ps"
    "ps = (if item3 (hd rs) = ''-'' then rev rs else rs)" by auto
  from ps(1) have "block_sizes raw = map (\<lambda>r. item2 r - (item1 r - 1)) ps"
    by (simp add: built_from_def)
  then show ?thesis
    by (cases "item3 (hd rs) = ''-''") (simp_all add: ps(2) rev_map [symmetric])
qed

lemma union_block_sizes:
  assumes "Bed_init rs nm True = Inr bed"
    and v: "\<forall>r \<in> set rs. item1 r \<le> item2 r"
  shows "sum_list (block_sizes bed) \<le> sum_list (map (\<lambda>r. item2 r - (item1 r - 1)) rs) \<and>
         (no_overlap rs \<longrightarrow>
            sum_list (block_sizes bed) = sum_list (map (\<lambda>r. item2 r - (item1 r - 1)) rs) \<and>
            block_count bed = int (length rs))"
proof -
  from Bed_init_built [OF assms(1)] obtain us where us: "built_from bed us"
    "get_union_regions rs = Inr us" by auto
  from union_regions_sweep [OF us(2)] obtain r1 rest where
    S: "sort_key r_start (map as_Region rs) = r1 # rest" and
    u: "us = map (retag (item0 (hd rs)) (item3 (hd rs))) (union_loop r1 rest [])" by blast
  let ?L = "union_loop r1 rest []"
  have sizes: "block_sizes bed = map rsize ?L"
    using us(1) by (simp add: built_from_def u rsize_def)
  have count: "block_count bed = int (length ?L)"
    using us(1) by (simp add: built_from_def u)
  have set_S: "set (r1 # rest) = as_Region ` set rs"
    using S set_sort [of r_start "map as_Region rs"] by simp
  have valid: "\<forall>x \<in> set (r1 # rest). r_start x \<le> r_end x"
    unfolding set_S using v by auto
  have sumS: "rsize r1 + sum_list (map rsize rest) = sum_list (map (\<lambda>r. item2 r - (item1 r - 1)) rs)"
  proof -
    have "rsize r1 + sum_list (map rsize rest) = sum_list (map rsize (sort_key r_start (map as_Region rs)))"
      by (simp add: S)
    also have "\<dots> = sum_list (map rsize (map as_Region rs))" by (rule sum_list_sort_key)
    also have "\<dots> = sum_list (map (\<lambda>r. item2 r - (item1 r - 1)) rs)"
      by (simp add: comp_def rsize_def)
    finally show ?thesis .
  qed
  have le: "sum_list (block_sizes bed) \<le> sum_list (map (\<lambda>r. item2 r - (item1 r - 1)) rs)"
    using union_loop_sum [OF valid] by (simp add: sizes sumS)
  have eq: "sum_list (block_sizes bed) = sum_list (map (\<lambda>r. item2 r - (item1 r - 1)) rs) \<and>
            block_count bed = int (length rs)" if no: "no_overlap rs"
  proof -
    have "sorted_wrt (\<lambda>a b. cov a \<inter> cov b = {}) (map as_Region rs)"
      using no by (simp add: no_overlap_def sorted_wrt_map cov_as_Region)
    then have "sorted_wrt (\<lambda>a b. cov a \<inter> cov b = {}) (sort_key r_start (map as_Region rs))"
      by (subst sorted_wrt_sort_key) auto
    then have d: "sorted_wrt (\<lambda>a b. cov a \<inter> cov b = {}) (r1 # rest)" by (simp only: S)
    have "sorted (map r_start (sort_key r_start (map as_Region rs)))" by (rule sorted_sort_key)
    then have srt: "sorted (map r_start (r1 # rest))" by (simp only: S)
    have L: "?L = r1 # rest"
      by (rule union_loop_separate [OF disjoint_sorted_gap [OF srt d valid]])
    have "length (r1 # rest) = length rs"
      using S length_sort [of r_start "map as_Region rs"] by simp
    then show ?thesis using sumS by (simp add: sizes count L)
  qed
  from le eq show ?thesis by blast
qed

lemma union_block_count:
  assumes "Bed_init rs nm True = Inr bed"
  shows "\<exists>us. get_union_regions rs = Inr us \<and> regions bed = us \<and>
           block_count bed = int (length us) \<and> length us \<le> length rs"
proof -
  from Bed_init_built [OF assms] obtain us where us: "built_from bed us" "regions bed = us"
    "get_union_regions rs = Inr us" by auto
  from union_regions_sweep [OF us(3)] obtain r1 rest where
    S: "sort_key r_start (map as_Region rs) = r1 # rest" and
    u: "us = map (retag (item0 (hd rs)) (item3 (hd rs))) (union_loop r1 rest [])" by blast
  have "length (r1 # rest) = length rs"
    using S length_sort [of r_start "map as_Region rs"] by simp
  with union_loop_length [of r1 rest] have "length us \<le> length rs" by (simp add: u)
  moreover have "block_count bed = int (length us)" using us(1) by (simp add: built_from_def)
  ultimately show ?thesis using us(2,3) by simp
qed

lemma isoform_regions_items:
  "r \<in> set (isoform_regions isoform) \<Longrightarrow> item0 r = iso_chr isoform \<and> item3 r = iso_strand isoform"
  by (auto simp: isoform_regions_def)

lemma isoform_regions_same:
  "(\<forall>r \<in> set (isoform_regions isoform). item0 r = item0 (hd (isoform_regions isoform))) \<and>
   (\<forall>r \<in> set (isoform_regions isoform). item3 r = item3 (hd (isoform_regions isoform)))"
proof (cases "isoform_regions isoform = []")
  case True
  then show ?thesis by simp
next
  case False
  then have "hd (isoform_regions isoform) \<in> set (isoform_regions isoform)" by simp
  from isoform_regions_items [OF this] isoform_regions_items [of _ isoform]
  show ?thesis by metis
qed

lemma isoform_regions_valid:
  assumes "list_all (\<lambda>(i, j). i \<le> j) (zip (starts isoform) (ends isoform))"
  shows "\<forall>r \<in> set (isoform_regions isoform). item1 r \<le> item2 r"
  using assms by (auto simp: isoform_regions_def list_all_iff)

lemma isoform_regions_length:
  "length (starts isoform) = length (ends isoform) \<Longrightarrow> length (isoform_regions isoform) = length (starts isoform)"
  by (simp add: isoform_regions_def)

lemma output_isoform_valid:
  assumes "length (starts isoform) = length (ends isoform)"
    and "list_all (\<lambda>(i, j). i \<le> j) (zip (starts isoform) (ends isoform))"
  shows "output_isoform_as_bed isoform nm = Bed_init (isoform_regions isoform) nm True"
  using assms by (simp add: output_isoform_as_bed_def)

lemma output_isoform_total:
  assumes "length (starts isoform) = length (ends isoform)"
    and "list_all (\<lambda>(i, j). i \<le> j) (zip (starts isoform) (ends isoform))"
    and "starts isoform \<noteq> []"
  shows "\<exists>bed. output_isoform_as_bed isoform nm = Inr bed"
proof -
  have ne: "isoform_regions isoform \<noteq> []"
    using isoform_regions_length [OF assms(1)] assms(3) by auto
  from get_union_regions_Inr [OF ne isoform_regions_same [THEN conjunct1]
      isoform_regions_same [THEN conjunct2]]
  obtain us where "get_union_regions (isoform_regions isoform) = Inr us" by blast
  from Bed_init_union_total [OF this, of nm] show ?thesis
    by (simp add: output_isoform_valid [OF assms(1,2)])
qed

lemma split_nonempty: "split sep s \<noteq> []"
  by (induction s) (auto split: list.splits)

lemma map_int_length: "map_int xs = Inr ns \<Longrightarrow> length ns = length xs"
  by (induction xs arbitrary: ns) (auto split: sum.splits)

lemma parse_isoform_starts:
  assumes "parse_isoform_data s = Inr isoform"
  shows "starts isoform \<noteq> []"
proof -
  from assms obtain c a b d where f: "split CHR ''|'' s = [c, a, b, d]"
    by (auto simp: parse_isoform_data_def split: list.splits)
  from assms f obtain ss where ss: "map_int (split CHR '','' a) = Inr ss" "starts isoform = ss"
    by (auto simp: parse_isoform_data_def split: sum.splits)
  from map_int_length [OF ss(1)] split_nonempty [of "CHR '',''" a] ss(2)
  show ?thesis by auto
qed

lemma overlap_union_regions:
  "get_union_regions [(''chr1'', 1, 5, ''+''), (''chr1'', 3, 8, ''+'')] = Inr [(''chr1'', 1, 8, ''+'')]"
  by (simp add: get_union_regions_def as_Region_def retag_def)

text \<open>
  Claim C8. For every valid isoform read from an input line, the total length written
  to the length file is the sum of the \<open>block_sizes\<close> of the record built on the
  union path; it is at most the sum of the raw per-exon sizes (the \<open>block_sizes\<close> of
  the record the raw path builds, that is \<open>end - (start - 1)\<close> summed over the exons),
  and equal to it when no two exons overlap.
\<close>

theorem total_length_is_union_coverage:
  assumes "parse_isoform_data (rstrip_newline line) = Inr isoform"
    and "length (starts isoform) = length (ends isoform)"
    and "list_all (\<lambda>(i, j). i \<le> j) (zip (starts isoform) (ends isoform))"
  shows "\<exists>bed raw.
           process_line line = Inr (bed, rstrip_newline line, sum_list (block_sizes bed)) \<and>
           Bed_init (isoform_regions isoform) (rstrip_newline line) True = Inr bed \<and>
           Bed_init (isoform_regions isoform) (rstrip_newline line) False = Inr raw \<and>
           sum_list (block_sizes raw) =
             sum_list (map (\<lambda>r. item2 r - (item1 r - 1)) (isoform_regions isoform)) \<and>
           sum_list (block_sizes bed) \<le> sum_list (block_sizes raw) \<and>
           (no_overlap (isoform_regions isoform) \<longrightarrow>
              sum_list (block_sizes bed) = sum_list (block_sizes raw))"
proof -
  let ?nm = "rstrip_newline line"
  let ?rs = "isoform_regions isoform"
  have ne0: "starts isoform \<noteq> []" by (rule parse_isoform_starts [OF assms(1)])
  have ne: "?rs \<noteq> []" using isoform_regions_length [OF assms(2)] ne0 by auto
  from output_isoform_total [OF assms(2,3) ne0, of ?nm]
  obtain bed where out: "output_isoform_as_bed isoform ?nm = Inr bed" by blast
  then have bed: "Bed_init ?rs ?nm True = Inr bed"
    by (simp add: output_isoform_valid [OF assms(2,3)])
  from Bed_init_raw_total [OF ne isoform_regions_same [THEN conjunct2], of ?nm]
  obtain raw where raw: "Bed_init ?rs ?nm False = Inr raw" by blast
  note rsum = raw_block_sizes [OF raw]
  note usum = union_block_sizes [OF bed isoform_regions_valid [OF assms(3)]]
  have p: "process_line line = Inr (bed, ?nm, sum_list (block_sizes bed))"
    by (simp add: process_line_def assms(1) out)
  have le: "sum_list (block_sizes bed) \<le> sum_list (block_sizes raw)"
    using usum [THEN conjunct1] by (simp only: rsum)
  have eq: "no_overlap ?rs \<longrightarrow> sum_list (block_sizes bed) = sum_list (block_sizes raw)"
    using usum [THEN conjunct2] by (simp only: rsum) blast
  show ?thesis
    by (rule exI [of _ bed], rule exI [of _ raw]) (intro conjI p bed raw rsum le eq)
qed

lemma parse_overlap_example:
  "parse_isoform_data ''chr1|1,3|5,8|+'' =
     Inr \<lparr> iso_chr = ''chr1'', starts = [1, 3], ends = [5, 8], iso_strand = ''+'' \<rparr>"
  by (simp add: parse_isoform_data_def py_int_def strip_def is_space_def py_digits_def digit_val_def
        int_max_str_digits_def)

lemma rstrip_overlap_example:
  "rstrip_newline ''chr1|1,3|5,8|+'' = ''chr1|1,3|5,8|+''"
  by (simp add: rstrip_newline_def)

theorem total_length_is_union_coverage_witness:
  "\<exists>bed raw.
     process_line ''chr1|1,3|5,8|+'' = Inr (bed, ''chr1|1,3|5,8|+'', 8) \<and>
     Bed_init [(''chr1'', 1, 5, ''+''), (''chr1'', 3, 8, ''+'')] ''chr1|1,3|5,8|+'' False = Inr raw \<and>
     sum_list (block_sizes raw) = 11 \<and>
     sum_list (block_sizes bed) = 8 \<and>
     sum_list (block_sizes bed) \<le> sum_list (block_sizes raw)"
proof -
  let ?line = "''chr1|1,3|5,8|+''"
  let ?isoform = "\<lparr> iso_chr = ''chr1'', starts = [1, 3], ends = [5, 8], iso_strand = ''+'' \<rparr>"
  have h1: "parse_isoform_data (rstrip_newline ?line) = Inr ?isoform"
    by (simp only: rstrip_overlap_example parse_overlap_example)
  have h2: "length (starts ?isoform) = length (ends ?isoform)" by simp
  have h3: "list_all (\<lambda>(i, j). i \<le> j) (zip (starts ?isoform) (ends ?isoform))" by simp
  have rg: "isoform_regions ?isoform = [(''chr1'', 1, 5, ''+''), (''chr1'', 3, 8, ''+'')]"
    by (simp add: isoform_regions_def)
  from total_length_is_union_coverage [OF h1 h2 h3] obtain bed raw where
    r: "process_line ?line = Inr (bed, rstrip_newline ?line, sum_list (block_sizes bed))"
       "Bed_init (isoform_regions ?isoform) (rstrip_newline ?line) False = Inr raw"
       "sum_list (block_sizes raw) =
          sum_list (map (\<lambda>r. item2 r - (item1 r - 1)) (isoform_regions ?isoform))"
       "sum_list (block_sizes bed) \<le> sum_list (block_sizes raw)"
    by (elim exE conjE)
  have u: "Bed_init (isoform_regions ?isoform) ''chr1|1,3|5,8|+'' True =
      Inr \<lparr> regions = [(''chr1'', 1, 8, ''+'')], name = ''chr1|1,3|5,8|+'', union_opt = True,
            chrom = ''chr1'', start = 0, bed_end = 8, strand = ''+'', block_count = 1,
            block_sizes = [8], block_starts = [0] \<rparr>"
    by (simp add: rg Bed_init_def overlap_union_regions parse_regions_def parse_region_def Let_def)
  have "process_line ?line = Inr (\<lparr> regions = [(''chr1'', 1, 8, ''+'')], name = ''chr1|1,3|5,8|+'', union_opt = True,
            chrom = ''chr1'', start = 0, bed_end = 8, strand = ''+'', block_count = 1,
            block_sizes = [8], block_starts = [0] \<rparr>, ''chr1|1,3|5,8|+'', 8)"
    using u h1 by (simp add: process_line_def output_isoform_as_bed_def rstrip_overlap_example Let_def)
  with r(1) have b8: "sum_list (block_sizes bed) = 8" by simp
  have r11: "sum_list (block_sizes raw) = 11" using r(3) by (simp add: rg)
  have p: "process_line ?line = Inr (bed, ''chr1|1,3|5,8|+'', 8)"
    using r(1) b8 by (simp add: rstrip_overlap_example)
  have w: "Bed_init [(''chr1'', 1, 5, ''+''), (''chr1'', 3, 8, ''+'')] ''chr1|1,3|5,8|+'' False = Inr raw"
    using r(2) by (simp only: rg rstrip_overlap_example)
  show ?thesis
    by (rule exI [of _ bed], rule exI [of _ raw]) (intro conjI p w r11 b8 r(4))
qed

text \<open>
  Claim C1, as amended. For every valid isoform, the record written to the interval
  file is the one the constructor builds on the union path, from the union of the
  \<open>(chrom, start, end, strand)\<close> tuples; when it is built, its regions are the merged
  intervals and its \<open>block_count\<close> is their number, which is at most the number of
  exons and equal to it when no two exons overlap. It is built whenever the isoform has
  an exon.
\<close>

theorem interval_record_is_union_built:
  assumes "length (starts isoform) = length (ends isoform)"
    and "list_all (\<lambda>(i, j). i \<le> j) (zip (starts isoform) (ends isoform))"
  shows "output_isoform_as_bed isoform nm = Bed_init (isoform_regions isoform) nm True \<and>
         (\<forall>bed. output_isoform_as_bed isoform nm = Inr bed \<longrightarrow>
            (\<exists>us. get_union_regions (isoform_regions isoform) = Inr us \<and> regions bed = us \<and>
                  block_count bed = int (length us) \<and> length us \<le> length (starts isoform)) \<and>
            (no_overlap (isoform_regions isoform) \<longrightarrow>
               block_count bed = int (length (starts isoform)))) \<and>
         (starts isoform \<noteq> [] \<longrightarrow> (\<exists>bed. output_isoform_as_bed isoform nm = Inr bed))"
proof -
  let ?rs = "isoform_regions isoform"
  note eq = output_isoform_valid [OF assms, of nm]
  note len = isoform_regions_length [OF assms(1)]
  have A: "(\<exists>us. get_union_regions ?rs = Inr us \<and> regions bed = us \<and>
                  block_count bed = int (length us) \<and> length us \<le> length (starts isoform)) \<and>
            (no_overlap ?rs \<longrightarrow> block_count bed = int (length (starts isoform)))"
    if "output_isoform_as_bed isoform nm = Inr bed" for bed
  proof -
    from that eq have b: "Bed_init ?rs nm True = Inr bed" by simp
    have 1: "\<exists>us. get_union_regions ?rs = Inr us \<and> regions bed = us \<and>
                  block_count bed = int (length us) \<and> length us \<le> length (starts isoform)"
      using union_block_count [OF b] by (simp only: len)
    have 2: "no_overlap ?rs \<longrightarrow> block_count bed = int (length (starts isoform))"
      using union_block_sizes [OF b isoform_regions_valid [OF assms(2)], THEN conjunct2]
      by (simp only: len) blast
    from 1 2 show ?thesis by (rule conjI)
  qed
  have A': "\<forall>bed. output_isoform_as_bed isoform nm = Inr bed \<longrightarrow>
            (\<exists>us. get_union_regions ?rs = Inr us \<and> regions bed = us \<and>
                  block_count bed = int (length us) \<and> length us \<le> length (starts isoform)) \<and>
            (no_overlap ?rs \<longrightarrow> block_count bed = int (length (starts isoform)))"
    using A by (intro allI impI)
  have B: "starts isoform \<noteq> [] \<longrightarrow> (\<exists>bed. output_isoform_as_bed isoform nm = Inr bed)"
    using output_isoform_total [OF assms, of nm] by (intro impI)
  show ?thesis by (intro conjI eq A' B)
qed

theorem interval_record_is_union_built_witness:
  "output_isoform_as_bed
       \<lparr> iso_chr = ''chr1'', starts = [1, 3], ends = [5, 8], iso_strand = ''+'' \<rparr> ''n'' =
     Bed_init [(''chr1'', 1, 5, ''+''), (''chr1'', 3, 8, ''+'')] ''n'' True \<and>
   (\<exists>bed. output_isoform_as_bed
       \<lparr> iso_chr = ''chr1'', starts = [1, 3], ends = [5, 8], iso_strand = ''+'' \<rparr> ''n'' = Inr bed)"
proof -
  let ?isoform = "\<lparr> iso_chr = ''chr1'', starts = [1, 3], ends = [5, 8], iso_strand = ''+'' \<rparr>"
  have h2: "length (starts ?isoform) = length (ends ?isoform)" by simp
  have h3: "list_all (\<lambda>(i, j). i \<le> j) (zip (starts ?isoform) (ends ?isoform))" by simp
  have rg: "isoform_regions ?isoform = [(''chr1'', 1, 5, ''+''), (''chr1'', 3, 8, ''+'')]"
    by (simp add: isoform_regions_def)
  note t = interval_record_is_union_built [OF h2 h3, of "''n''"]
  have 1: "output_isoform_as_bed ?isoform ''n'' =
     Bed_init [(''chr1'', 1, 5, ''+''), (''chr1'', 3, 8, ''+'')] ''n'' True"
    using t [THEN conjunct1] by (simp only: rg)
  have 2: "\<exists>bed. output_isoform_as_bed ?isoform ''n'' = Inr bed"
    using t [THEN conjunct2, THEN conjunct2] by simp
  from 1 2 show ?thesis by (rule conjI)
qed

text \<open>
  The claim as written makes that record the per-exon one of the raw path, with one
  block for each exon. For the valid isoform \<^verbatim>\<open>chr1|1,3|5,8|+\<close> the record written
  has one block, the isoform two exons, and the raw path builds another record.
\<close>

theorem interval_record_per_exon_counterexample:
  "map_sum id block_count (output_isoform_as_bed
       \<lparr> iso_chr = ''chr1'', starts = [1, 3], ends = [5, 8], iso_strand = ''+'' \<rparr>
       ''chr1|1,3|5,8|+'') = Inr 1 \<and>
   length (starts \<lparr> iso_chr = ''chr1'', starts = [1, 3], ends = [5, 8], iso_strand = ''+'' \<rparr>) = 2 \<and>
   map_sum id block_count (Bed_init (isoform_regions
       \<lparr> iso_chr = ''chr1'', starts = [1, 3], ends = [5, 8], iso_strand = ''+'' \<rparr>)
       ''chr1|1,3|5,8|+'' False) = Inr 2 \<and>
   output_isoform_as_bed
       \<lparr> iso_chr = ''chr1'', starts = [1, 3], ends = [5, 8], iso_strand = ''+'' \<rparr>
       ''chr1|1,3|5,8|+'' \<noteq>
   Bed_init (isoform_regions
       \<lparr> iso_chr = ''chr1'', starts = [1, 3], ends = [5, 8], iso_strand = ''+'' \<rparr>)
       ''chr1|1,3|5,8|+'' False"
  by (simp add: output_isoform_as_bed_def isoform_regions_def Bed_init_def overlap_union_regions
        reverse_regions_if_minus_strand_def
        parse_regions_def parse_region_def add_block_def Bed_single_def Let_def)

end
